theory Spec2Isabelle
  imports Complex_Main "HOL-Library.Multiset"
begin

section \<open>Python values and errors\<close>

text \<open>
  The exceptions the modelled functions raise.  A function that can raise returns
  \<open>error + 'a\<close>, with \<open>Inl\<close> for the exception.
\<close>

datatype error =
  ValueError | TypeError | AssertionError | IndexError | AttributeError | NameError |
  RecursionError

text \<open>
  Python \<open>str\<close> is modelled as \<open>string\<close>: the names handled here are ASCII.
  \<open>str.lower\<close> and \<open>str.replace("_", " ")\<close> on such strings:
\<close>

definition lower_char :: "char \<Rightarrow> char" where
  "lower_char c =
     (let k = (of_char c :: nat) in if 65 \<le> k \<and> k \<le> 90 then char_of (k + 32) else c)"

definition lower :: "string \<Rightarrow> string" where
  "lower s = map lower_char s"

definition replace_underscore :: "string \<Rightarrow> string" where
  "replace_underscore s = map (\<lambda>c. if c = CHR ''_'' then CHR '' '' else c) s"

section \<open>Canonical names (\<open>_canonical_names.py\<close>)\<close>

text \<open>
  \<open>normalize_name\<close> reads the module-level table \<open>canonical_names\<close>, which the module
  changes at import time on Darwin and Linux.  The table is therefore an argument \<open>cn\<close>
  (an association list, looked up with \<open>map_of\<close> as \<open>dict.get\<close> does).
  \<open>name\<close> is a \<open>string\<close>, so of the guard
  \<open>not name or not isinstance(name, basestring)\<close> only the empty name remains.
\<close>

definition normalize_name :: "(string \<times> string) list \<Rightarrow> string \<Rightarrow> error + string" where
  "normalize_name cn nm =
     (if nm = [] then Inl ValueError
      else
        let n1 = (if length nm > 1 then lower nm else nm);
            n2 = (if n1 \<noteq> ''_'' \<and> CHR ''_'' \<in> set n1 then replace_underscore n1 else n1)
        in Inr (case map_of cn n2 of Some v \<Rightarrow> v | None \<Rightarrow> n2))"

definition sided_modifiers :: "string list" where
  "sided_modifiers = [''ctrl'', ''alt'', ''shift'', ''windows'']"

text \<open>
  The entries of the default (Windows) \<open>canonical_names\<close> whose value is ASCII, in the
  order of the source.  The remaining entries of the source map an ASCII key (an X keysym
  name such as \<open>Aacute\<close>) to a character beyond ASCII, which \<open>string\<close> cannot hold; a
  lookup of any key listed here gives what the source's table gives, and so does the
  lookup of a name that is no key of the source's table.  The names that are keys of the
  entries left out are outside the model.
\<close>

definition canonical_names :: "(string \<times> string) list" where
  "canonical_names =
   [(''escape'', ''esc''), (''return'', ''enter''), (''del'', ''delete''),
    (''control'', ''ctrl''), (''left arrow'', ''left''), (''up arrow'', ''up''),
    (''down arrow'', ''down''), (''right arrow'', ''right''), ('' '', ''space''),
    ([CHR 0x1B], ''esc''), ([CHR 0x08], ''backspace''), ([CHR 0x0A], ''enter''),
    ([CHR 0x09], ''tab''), ([CHR 0x0D], ''enter''), (''scrlk'', ''scroll lock''),
    (''prtscn'', ''print screen''), (''prnt scrn'', ''print screen''),
    (''snapshot'', ''print screen''), (''ins'', ''insert''), (''pause break'', ''pause''),
    (''ctrll lock'', ''caps lock''), (''capslock'', ''caps lock''),
    (''number lock'', ''num lock''), (''numlock'', ''num lock''),
    (''space bar'', ''space''), (''spacebar'', ''space''), (''linefeed'', ''enter''),
    (''win'', ''windows''), (''command'', ''windows''), (''cmd'', ''windows''),
    (''option'', ''alt''), (''app'', ''menu''), (''apps'', ''menu''),
    (''application'', ''menu''), (''applications'', ''menu''),
    (''pagedown'', ''page down''), (''pageup'', ''page up''), (''pgdown'', ''page down''),
    (''pgup'', ''page up''), (''play/pause'', ''play/pause media''),
    (''num multiply'', ''*''), (''num divide'', ''/''), (''num add'', ''+''),
    (''num plus'', ''+''), (''num minus'', ''-''), (''num sub'', ''-''),
    (''num enter'', ''enter''), (''num 0'', ''0''), (''num 1'', ''1''), (''num 2'', ''2''),
    (''num 3'', ''3''), (''num 4'', ''4''), (''num 5'', ''5''), (''num 6'', ''6''),
    (''num 7'', ''7''), (''num 8'', ''8''), (''num 9'', ''9''),
    (''left win'', ''left windows''), (''right win'', ''right windows''),
    (''left control'', ''left ctrl''), (''right control'', ''right ctrl''),
    (''left menu'', ''left alt''), (''altgr'', ''alt gr''), (''add'', ''+''),
    (''ampersand'', ''&''), (''apostrophe'', [CHR 0x27]), (''asciicircum'', ''^''),
    (''asciitilde'', ''~''), (''asterisk'', ''*''), (''at'', ''@''),
    (''backslash'', [CHR 0x5C]), (''bar'', ''|''), (''braceleft'', ''{''),
    (''braceright'', ''}''), (''bracketleft'', ''[''), (''bracketright'', '']''),
    (''colon'', '':''), (''comma'', '',''), (''dollar'', ''$''), (''dot'', ''.''),
    (''eight'', ''8''), (''equal'', ''=''), (''exclam'', ''!''), (''five'', ''5''),
    (''four'', ''4''), (''grave'', [CHR 0x60]), (''greater'', ''>''), (''hash'', ''#''),
    (''hashtag'', ''#''), (''less'', ''<''), (''minplus'', ''+''), (''nine'', ''9''),
    (''nobreakspace'', '' ''), (''numbersign'', ''#''), (''one'', ''1''),
    (''parenleft'', ''(''), (''parenright'', '')''), (''percent'', ''%''),
    (''period'', ''.''), (''plus'', ''+''), (''question'', ''?''),
    (''quotedbl'', [CHR 0x22]), (''quotesingle'', [CHR 0x27]), (''semicolon'', '';''),
    (''seven'', ''7''), (''six'', ''6''), (''slash'', ''/''), (''subtract'', ''-''),
    (''three'', ''3''), (''til'', ''~''), (''two'', ''2''), (''underscore'', ''_''),
    (''zero'', ''0'')]"

section \<open>Keyboard events (\<open>_keyboard_event.py\<close>)\<close>

definition KEY_DOWN :: string where
  "KEY_DOWN = ''down''"

definition KEY_UP :: string where
  "KEY_UP = ''up''"

text \<open>
  The attributes of \<open>KeyboardEvent\<close>.  \<open>time\<close> is a Python number of seconds; it is
  modelled as an exact rational, so that the subtraction and the comparisons of time stamps
  are the exact ones.  \<open>char\<close> is written \<open>char_attr\<close>.
\<close>

record keyboard_event =
  event_type :: string
  scan_code :: int
  name :: "string option"
  time :: rat
  device :: "string option"
  modifiers :: "string list"
  is_numpad :: "bool option"
  char_attr :: string


text \<open>\<open>KeyboardEvent.__eq__\<close>: the five attributes it compares.\<close>

definition event_eq :: "keyboard_event \<Rightarrow> keyboard_event \<Rightarrow> bool" where
  "event_eq a b =
     (event_type a = event_type b \<and> time a = time b \<and> device a = device b \<and>
      scan_code a = scan_code b \<and> name a = name b)"

subsection \<open>The wire record\<close>












section \<open>Decisions (\<open>_Enum\<close>, \<open>ALLOW\<close>, \<open>SUSPEND\<close>, \<open>SUPPRESS\<close>)\<close>

datatype decision = ALLOW | SUSPEND | SUPPRESS

text \<open>The attribute \<open>n\<close> of the three \<open>_Enum\<close> objects, and \<open>_Enum.__lt__\<close>.\<close>

fun enum_n :: "decision \<Rightarrow> nat" where
  "enum_n ALLOW = 0"
| "enum_n SUSPEND = 1"
| "enum_n SUPPRESS = 2"

definition enum_lt :: "decision \<Rightarrow> decision \<Rightarrow> bool" where
  "enum_lt a b = (enum_n a < enum_n b)"

text \<open>
  Python's \<open>max\<close> over an iterable: it keeps the first item and replaces it by a later
  item when \<open>item > best\<close>, which for \<open>_Enum\<close> (only \<open>__lt__\<close> is defined) is the reflected
  \<open>best.__lt__(item)\<close>.  An empty iterable is a \<open>ValueError\<close>.
\<close>

definition max_step :: "decision \<Rightarrow> decision \<Rightarrow> decision" where
  "max_step best item = (if enum_lt best item then item else best)"

fun py_max :: "decision list \<Rightarrow> error + decision" where
  "py_max [] = Inl ValueError"
| "py_max (d # ds) = Inr (foldl max_step d ds)"

text \<open>
  What a hook returns: a dict from events to decisions.  Keys are compared with
  \<open>KeyboardEvent.__eq__\<close>, so the dict is an association list searched with \<open>event_eq\<close>;
  storing under a key that is already present replaces the value and keeps the stored key.
\<close>

type_synonym decisions = "(keyboard_event \<times> decision) list"

fun dict_get :: "decisions \<Rightarrow> keyboard_event \<Rightarrow> decision \<Rightarrow> decision" where
  "dict_get [] k dflt = dflt"
| "dict_get ((k', v) # d) k dflt = (if event_eq k' k then v else dict_get d k dflt)"

fun dict_set :: "decisions \<Rightarrow> keyboard_event \<Rightarrow> decision \<Rightarrow> decisions" where
  "dict_set [] k v = [(k, v)]"
| "dict_set ((k', v') # d) k v =
     (if event_eq k' k then (k', v) # d else (k', v') # dict_set d k v)"

text \<open>
  The merge of \<open>run_sync_hooks\<close>:
  \<open>max(decisions.get(event, ALLOW) for decisions in hooks_decisions)\<close>, where
  \<open>hooks_decisions\<close> is the list of the hooks' dicts \<open>or [{}]\<close>.
\<close>

definition or_empty_dict :: "decisions list \<Rightarrow> decisions list" where
  "or_empty_dict hds = (if hds = [] then [[]] else hds)"

definition merge_decisions :: "decisions list \<Rightarrow> keyboard_event \<Rightarrow> error + decision" where
  "merge_decisions hooks_decisions ev = py_max (map (\<lambda>d. dict_get d ev ALLOW) hooks_decisions)"

text \<open>What a user callback returns: one of the three decisions, or anything else.\<close>

datatype cb_result = Decision decision | Other


section \<open>Hotkeys: \<open>Key\<close>, \<open>Step\<close>, \<open>Hotkey\<close>\<close>

text \<open>
  The dynamically typed values a caller passes as a key or as a hotkey: a number, a string,
  a list or tuple, or \<open>None\<close>.
\<close>

datatype pyval = PInt int | PStr string | PList "pyval list" | PNone

record key =
  label :: pyval
  scan_codes :: "int list"

text \<open>\<open>Key.__init__\<close> asserts that there is at least one scan code.\<close>

definition Key :: "pyval \<Rightarrow> int list \<Rightarrow> error + key" where
  "Key l scs = (if scs = [] then Inl AssertionError else Inr \<lparr> label = l, scan_codes = scs \<rparr>)"

record step =
  keys :: "key list"
  step_modifiers :: "key list"
  is_standard :: bool
  main_key :: "key option"

text \<open>
  \<open>Step.__init__\<close>.  \<open>msc\<close> is the module-level set \<open>_modifier_scan_codes\<close>, which
  \<open>is_modifier\<close> consults for a scan code.  Reading \<open>key.scan_codes[0]\<close> of a key
  without scan codes is an \<open>IndexError\<close>.
\<close>

definition Step :: "int set \<Rightarrow> key list \<Rightarrow> error + step" where
  "Step msc ks =
     (if \<exists>k \<in> set ks. scan_codes k = [] then Inl IndexError
      else
        let mods = filter (\<lambda>k. hd (scan_codes k) \<in> msc) ks
        in if length ks = length mods + 1
           then Inr \<lparr> keys = ks, step_modifiers = mods, is_standard = True,
                      main_key = find (\<lambda>k. k \<notin> set mods) ks \<rparr>
           else Inr \<lparr> keys = ks, step_modifiers = mods, is_standard = False,
                      main_key = None \<rparr>)"

record hotkey =
  steps :: "step list"

definition Hotkey :: "step list \<Rightarrow> hotkey" where
  "Hotkey ss = \<lparr> steps = ss \<rparr>"

section \<open>The transition table of \<open>_HotkeyHook\<close>\<close>

text \<open>
  \<open>transitions\<close> is a \<open>defaultdict(lambda: 0)\<close> keyed by \<open>(state, tuple of scan codes)\<close>.
  Reading a key that is absent gives 0 and stores the key with 0.
\<close>

type_synonym transitions = "(int \<times> int list) \<rightharpoonup> int"

definition dd_get :: "transitions \<Rightarrow> int \<times> int list \<Rightarrow> int \<times> transitions" where
  "dd_get t k = (case t k of Some v \<Rightarrow> (v, t) | None \<Rightarrow> (0, t(k \<mapsto> 0)))"

text \<open>The recursive lambda \<open>get_final_state(sequence, state=0)\<close>.\<close>

fun get_final_state :: "transitions \<Rightarrow> int list list \<Rightarrow> int \<Rightarrow> int \<times> transitions" where
  "get_final_state t [] st = (st, t)"
| "get_final_state t (x # xs) st =
     (case dd_get t (st, x) of (st', t') \<Rightarrow> get_final_state t' xs st')"

text \<open>
  \<open>max(get_final_state(history[j:] + [previous_inputs]) for j in range(1, len(history)+1))\<close>.
  It is evaluated only for \<open>previous_inputs\<close> taken from \<open>history\<close>, so \<open>j = 1\<close> is always
  in the range; the later values of \<open>j\<close> are folded with \<open>max\<close> on integers.
\<close>

definition overlap_step ::
  "int list list \<Rightarrow> int list \<Rightarrow> nat \<Rightarrow> int \<times> transitions \<Rightarrow> int \<times> transitions" where
  "overlap_step history previous_inputs j acc =
     (case acc of (best, t) \<Rightarrow>
        (case get_final_state t (drop j history @ [previous_inputs]) 0 of
           (s, t') \<Rightarrow> (max best s, t')))"

definition overlapping_state ::
  "transitions \<Rightarrow> int list list \<Rightarrow> int list \<Rightarrow> int \<times> transitions" where
  "overlapping_state t history previous_inputs =
     fold (overlap_step history previous_inputs) [2 ..< length history + 1]
       (get_final_state t (drop 1 history @ [previous_inputs]) 0)"

text \<open>
  The loop \<open>for previous_inputs in set(history)\<close>.  Python leaves the order of a set
  open; the model walks the elements as \<open>remdups history\<close> lists them.  Each round reads
  rows below \<open>i\<close> and writes one entry of row \<open>i\<close>.
\<close>

fun failure_links ::
  "transitions \<Rightarrow> int \<Rightarrow> int list list \<Rightarrow> int list list \<Rightarrow> transitions" where
  "failure_links t i history [] = t"
| "failure_links t i history (p # ps) =
     (case overlapping_state t history p of
        (s, t') \<Rightarrow> failure_links (t'((i, p) \<mapsto> s)) i history ps)"

text \<open>\<open>itertools.product(*lists)\<close>: the rightmost list advances fastest.\<close>

fun itertools_product :: "'a list list \<Rightarrow> 'a list list" where
  "itertools_product [] = [[]]"
| "itertools_product (xs # xss) =
     concat (map (\<lambda>x. map (\<lambda>r. x # r) (itertools_product xss)) xs)"

definition step_inputs :: "step \<Rightarrow> int list list" where
  "step_inputs st = itertools_product (map scan_codes (keys st))"

definition add_step_inputs :: "transitions \<Rightarrow> int \<Rightarrow> int list list \<Rightarrow> transitions" where
  "add_step_inputs t i inputs = fold (\<lambda>c t'. t'((i, sort c) \<mapsto> i + 1)) inputs t"

text \<open>
  The body of \<open>for i, step in enumerate(hotkey.steps)\<close>.  After the inner loop the loop
  variable \<open>input_scan_codes\<close> holds the last tuple of the product, unsorted, and that is
  what \<open>history.append\<close> stores; when the product is empty the variable keeps the value
  it had in the previous step, and in the very first step it is unbound (\<open>NameError\<close>).
\<close>

fun build_steps ::
  "transitions \<Rightarrow> int \<Rightarrow> int list list \<Rightarrow> int list option \<Rightarrow> step list \<Rightarrow> error + transitions" where
  "build_steps t i history last_input [] = Inr t"
| "build_steps t i history last_input (st # sts) =
     (let t1 = failure_links t i history (remdups history);
          t2 = add_step_inputs t1 i (step_inputs st);
          last_input' = (if step_inputs st = [] then last_input else Some (last (step_inputs st)))
      in case last_input' of
           None \<Rightarrow> Inl NameError
         | Some c \<Rightarrow> build_steps t2 (i + 1) (history @ [c]) last_input' sts)"

definition build_hotkey_transition_table :: "hotkey \<Rightarrow> error + transitions" where
  "build_hotkey_transition_table hk = build_steps Map.empty 0 [] None (steps hk)"

section \<open>\<open>_HotkeyHook\<close>\<close>

record hotkey_hook =
  callback :: "unit \<Rightarrow> cb_result"
  hotkey :: hotkey
  timeout :: rat
  trigger_on_release :: bool
  transitions :: transitions
  state :: int
  suspended_events :: "keyboard_event list"
  scan_code_releases_to_suppress :: "int set"

definition HotkeyHook_init ::
  "hotkey \<Rightarrow> rat \<Rightarrow> bool \<Rightarrow> (unit \<Rightarrow> cb_result) \<Rightarrow> error + hotkey_hook" where
  "HotkeyHook_init hk tmo tor cb =
     (case build_hotkey_transition_table hk of
        Inl err \<Rightarrow> Inl err
      | Inr t \<Rightarrow> Inr \<lparr> callback = cb, hotkey = hk, timeout = tmo, trigger_on_release = tor,
                        transitions = t, state = 0, suspended_events = [],
                        scan_code_releases_to_suppress = {} \<rparr>)"

text \<open>Python indexing and the slice \<open>xs[:i]\<close>; a negative index counts from the end.\<close>

definition py_index :: "'a list \<Rightarrow> int \<Rightarrow> error + 'a" where
  "py_index xs i =
     (if 0 \<le> i \<and> i < int (length xs) then Inr (xs ! nat i)
      else if i < 0 \<and> - i \<le> int (length xs) then Inr (xs ! nat (int (length xs) + i))
      else Inl IndexError)"

definition py_slice_to :: "'a list \<Rightarrow> int \<Rightarrow> 'a list" where
  "py_slice_to xs i = (if i < 0 then take (length xs - nat (- i)) xs else take (nat i) xs)"

text \<open>
  \<open>list.remove\<close> on a list of events: the first element equal to the argument goes.
  The source removes elements it has just read from a sorted copy of the same list, so the
  element is there.
\<close>

fun list_remove :: "keyboard_event \<Rightarrow> keyboard_event list \<Rightarrow> keyboard_event list" where
  "list_remove x [] = []"
| "list_remove x (y # ys) = (if event_eq y x then ys else y # list_remove x ys)"

definition is_main_key_of :: "step \<Rightarrow> keyboard_event \<Rightarrow> error + bool" where
  "is_main_key_of st e =
     (if is_standard st
      then (case main_key st of
              None \<Rightarrow> Inl AttributeError
            | Some k \<Rightarrow> Inr (scan_code e \<in> set (scan_codes k)))
      else Inr (\<exists>k \<in> set (keys st). scan_code e \<in> set (scan_codes k)))"

text \<open>The branch \<open>if event.event_type == KEY_UP\<close>; the second component is \<open>events_to_suppress\<close>.\<close>

definition key_up_branch :: "hotkey_hook \<Rightarrow> keyboard_event \<Rightarrow> hotkey_hook \<times> keyboard_event list" where
  "key_up_branch h e =
     (if scan_code e \<in> set (map scan_code (suspended_events h))
      then (h\<lparr>suspended_events := suspended_events h @ [e]\<rparr>, [])
      else if scan_code e \<in> scan_code_releases_to_suppress h
      then (h\<lparr>scan_code_releases_to_suppress := scan_code_releases_to_suppress h - {scan_code e}\<rparr>, [e])
      else (h, []))"

text \<open>
  \<open>self.suspended_events and event.time - max(e.time for e in self.suspended_events) >= self.timeout\<close>
\<close>

definition timed_out :: "hotkey_hook \<Rightarrow> keyboard_event \<Rightarrow> bool" where
  "timed_out h e =
     (case suspended_events h of
        [] \<Rightarrow> False
      | s # ss \<Rightarrow> time e - fold max (map time ss) (time s) \<ge> timeout h)"

definition timeout_branch :: "hotkey_hook \<Rightarrow> keyboard_event \<Rightarrow> hotkey_hook" where
  "timeout_branch h e = (if timed_out h e then h\<lparr>state := 0, suspended_events := []\<rparr> else h)"

text \<open>
  The loop over \<open>sorted(self.suspended_events, key=lambda e: e.time, reverse=True)\<close>;
  Python's sort is stable, also with \<open>reverse=True\<close>.
\<close>

fun drop_useless :: "int \<Rightarrow> keyboard_event list \<Rightarrow> keyboard_event list \<Rightarrow> keyboard_event list" where
  "drop_useless n [] sus = sus"
| "drop_useless n (se # rest) sus =
     drop_useless (if event_type se = KEY_DOWN then n - 1 else n) rest
       (if n \<le> 0 then list_remove se sus else sus)"

definition n_useful_presses :: "hotkey_hook \<Rightarrow> int" where
  "n_useful_presses h =
     sum_list (map (\<lambda>st. if is_standard st then 1 else int (length (keys st)))
                   (py_slice_to (steps (hotkey h)) (state h)))"

text \<open>
  From the computation of \<open>input_scan_codes\<close> to the end of the branch
  \<open>elif self.state < len(self.hotkey.steps)\<close>.  The sets are listed in increasing order
  before \<open>sorted\<close> is applied, which makes no difference to the sorted tuple.
\<close>

definition match_branch ::
  "hotkey_hook \<Rightarrow> keyboard_event \<Rightarrow> step \<Rightarrow> bool \<Rightarrow> int set \<Rightarrow> int set \<Rightarrow> hotkey_hook" where
  "match_branch h e st is_main physically_pressed_keys active_modifiers =
     (let input_scan_codes =
            (if is_standard st then sort (scan_code e # sorted_list_of_set active_modifiers)
             else sort (sorted_list_of_set physically_pressed_keys));
          h1 = h\<lparr>suspended_events := suspended_events h @ [e]\<rparr>
      in if is_standard st \<or> int (card physically_pressed_keys) \<ge> int (length (keys st)) \<or> \<not> is_main
         then (case dd_get (transitions h1) (state h1, input_scan_codes) of
                 (s, t) \<Rightarrow>
                   (let h2 = h1\<lparr>state := s, transitions := t\<rparr>
                    in h2\<lparr>suspended_events :=
                            drop_useless (n_useful_presses h2)
                              (sort_key (\<lambda>x. - time x) (suspended_events h2))
                              (suspended_events h2)\<rparr>))
         else h1)"

text \<open>The loop \<open>for suspended_event in self.suspended_events\<close> run when the callback did not return \<open>ALLOW\<close>.\<close>

fun mark_suppressed ::
  "int set \<Rightarrow> keyboard_event list \<Rightarrow> keyboard_event list \<times> int set \<Rightarrow> keyboard_event list \<times> int set" where
  "mark_suppressed logically_pressed_keys [] acc = acc"
| "mark_suppressed logically_pressed_keys (se # rest) (ets, rel) =
     (let is_logically_pressed = (scan_code se \<in> logically_pressed_keys);
          ets' = (if \<not> (event_type se = KEY_UP \<and> is_logically_pressed) then ets @ [se] else ets);
          rel' = (if event_type se = KEY_DOWN \<and> \<not> is_logically_pressed then insert (scan_code se) rel
                  else if event_type se = KEY_UP then rel - {scan_code se}
                  else rel)
      in mark_suppressed logically_pressed_keys rest (ets', rel'))"

text \<open>
  The condition of the completion block.  When \<open>trigger_on_release\<close> is false its third
  conjunct is the string \<open>KEY_DOWN\<close> itself, which is true.
\<close>

definition completes :: "hotkey_hook \<Rightarrow> keyboard_event \<Rightarrow> bool \<Rightarrow> bool" where
  "completes h e is_main =
     (state h = int (length (steps (hotkey h))) \<and> is_main \<and>
      (if trigger_on_release h then event_type e = KEY_UP else KEY_DOWN \<noteq> []))"

text \<open>
  The completion block; the result is the hook, \<open>events_to_suppress\<close> and the number of
  calls of the callback.
\<close>

definition completion ::
  "hotkey_hook \<Rightarrow> keyboard_event \<Rightarrow> bool \<Rightarrow> int set \<Rightarrow> keyboard_event list \<Rightarrow>
   hotkey_hook \<times> keyboard_event list \<times> nat" where
  "completion h e is_main logically_pressed_keys ets =
     (if completes h e is_main
      then (if callback h () \<noteq> Decision ALLOW
            then (case mark_suppressed logically_pressed_keys (suspended_events h)
                         (ets, scan_code_releases_to_suppress h) of
                    (ets', rel') \<Rightarrow>
                      (h\<lparr>state := 0, suspended_events := [],
                         scan_code_releases_to_suppress := rel'\<rparr>, ets', 1))
            else (h\<lparr>state := 0, suspended_events := []\<rparr>, ets, 1))
      else (h, ets, 0))"

text \<open>
  The returned dict
  \<open>{**{s: SUSPEND for s in self.suspended_events}, **{e: SUPPRESS for e in events_to_suppress}}\<close>.
\<close>

definition decision_dict :: "keyboard_event list \<Rightarrow> keyboard_event list \<Rightarrow> decisions" where
  "decision_dict sus ets =
     fold (\<lambda>x d. dict_set d x SUPPRESS) ets (fold (\<lambda>x d. dict_set d x SUSPEND) sus [])"

text \<open>
  \<open>_HotkeyHook.process_event\<close>.  The result is the hook after the call, the returned dict
  and the number of calls of the callback.
\<close>

definition HotkeyHook_process_event ::
  "int set \<Rightarrow> hotkey_hook \<Rightarrow> keyboard_event \<Rightarrow> int set \<Rightarrow> int set \<Rightarrow> int set \<Rightarrow>
   error + (hotkey_hook \<times> decisions \<times> nat)" where
  "HotkeyHook_process_event msc h e physically_pressed_keys logically_pressed_keys active_modifiers =
     (let n_steps = int (length (steps (hotkey h)))
      in case py_index (steps (hotkey h)) (min (state h) (n_steps - 1)) of
           Inl err \<Rightarrow> Inl err
         | Inr st \<Rightarrow>
             (case is_main_key_of st e of
                Inl err \<Rightarrow> Inl err
              | Inr is_main \<Rightarrow>
                  (case (if event_type e = KEY_UP then key_up_branch h e
                         else if scan_code e \<in> msc \<and> is_standard st then (h, [])
                         else if state h < n_steps
                         then (match_branch (timeout_branch h e) e st is_main
                                 physically_pressed_keys active_modifiers, [])
                         else (h, [])) of
                     (h1, ets) \<Rightarrow>
                       (case completion h1 e is_main logically_pressed_keys ets of
                          (h2, ets', calls) \<Rightarrow>
                            Inr (h2, decision_dict (suspended_events h2) ets', calls)))))"


section \<open>\<open>_SimpleHook\<close> and \<open>_KeyHook\<close>\<close>

text \<open>
  A hook is one of the three classes.  \<open>process_event\<close> gives the hook after the call,
  the returned dict and the number of times the user callback was called.
\<close>

datatype hook =
  SimpleHook "keyboard_event \<Rightarrow> cb_result"
| KeyHook "int list" "unit \<Rightarrow> cb_result"
| HotkeyHook hotkey_hook

text \<open>
  \<open>_SimpleHook.process_event\<close>:
  \<open>result if result in (ALLOW, SUSPEND, SUPPRESS) else ALLOW\<close>.
\<close>

definition SimpleHook_process_event ::
  "(keyboard_event \<Rightarrow> cb_result) \<Rightarrow> keyboard_event \<Rightarrow> decisions \<times> nat" where
  "SimpleHook_process_event cb e =
     (let result = cb e
      in ([(e, case result of Decision d \<Rightarrow> d | Other \<Rightarrow> ALLOW)], 1))"

text \<open>
  \<open>_KeyHook.process_event\<close>:
  \<open>result if result in (ALLOW, SUPPRESS) else SUPPRESS\<close> when the scan code is one of
  the hook's, \<open>{event: ALLOW}\<close> otherwise.
\<close>

definition KeyHook_process_event ::
  "int list \<Rightarrow> (unit \<Rightarrow> cb_result) \<Rightarrow> keyboard_event \<Rightarrow> decisions \<times> nat" where
  "KeyHook_process_event scs cb e =
     (if scan_code e \<in> set scs
      then (let result = cb ()
            in ([(e, if result = Decision ALLOW \<or> result = Decision SUPPRESS
                     then (case result of Decision d \<Rightarrow> d | Other \<Rightarrow> SUPPRESS)
                     else SUPPRESS)], 1))
      else ([(e, ALLOW)], 0))"

fun process_event ::
  "int set \<Rightarrow> hook \<Rightarrow> keyboard_event \<Rightarrow> int set \<Rightarrow> int set \<Rightarrow> int set \<Rightarrow>
   error + (hook \<times> decisions \<times> nat)" where
  "process_event msc (SimpleHook cb) e phys logical mods =
     (case SimpleHook_process_event cb e of (d, calls) \<Rightarrow> Inr (SimpleHook cb, d, calls))"
| "process_event msc (KeyHook scs cb) e phys logical mods =
     (case KeyHook_process_event scs cb e of (d, calls) \<Rightarrow> Inr (KeyHook scs cb, d, calls))"
| "process_event msc (HotkeyHook h) e phys logical mods =
     (case HotkeyHook_process_event msc h e phys logical mods of
        Inl err \<Rightarrow> Inl err
      | Inr (h', d, calls) \<Rightarrow> Inr (HotkeyHook h', d, calls))"

section \<open>\<open>_KeyboardListener\<close>\<close>

text \<open>
  The state of the listener.  The registry \<open>hook_disable_by_id\<close> of closures and the
  thread flag \<open>flag_running\<close> play no part in event processing and are left out.  The
  module-level \<open>_listener\<close> is the one listener, so \<open>_listener.is_replaying\<close> is the field.
\<close>

record listener =
  physically_pressed_keys :: "int set"
  logically_pressed_keys :: "int set"
  active_modifiers :: "int set"
  suspended_event_pairs :: "(keyboard_event \<times> int set) list"
  is_replaying :: bool
  suppressing_hooks :: "hook list"
  nonsuppressing_hooks :: "hook list"
  async_events_queue :: "keyboard_event list"

definition KeyboardListener_init :: listener where
  "KeyboardListener_init =
     \<lparr> physically_pressed_keys = {}, logically_pressed_keys = {}, active_modifiers = {},
       suspended_event_pairs = [], is_replaying = False, suppressing_hooks = [],
       nonsuppressing_hooks = [], async_events_queue = [] \<rparr>"

text \<open>
  \<open>register\<close> appends the hook to the list chosen by \<open>suppress\<close> (the closure \<open>enable\<close>).
\<close>

definition register :: "listener \<Rightarrow> hook \<Rightarrow> bool \<Rightarrow> listener" where
  "register l hook_obj suppress =
     (if suppress then l\<lparr>suppressing_hooks := suppressing_hooks l @ [hook_obj]\<rparr>
      else l\<lparr>nonsuppressing_hooks := nonsuppressing_hooks l @ [hook_obj]\<rparr>)"

text \<open>
  The calls the listener makes on the device driver, \<open>_os_keyboard.press\<close> and
  \<open>_os_keyboard.release\<close>, are recorded in order.  Where the source walks a set of scan
  codes, the model walks it in increasing order.
\<close>

datatype driver_call = Press int | Release int

text \<open>
  Whether the driver delivers an event it has been asked to inject back to
  \<open>process_sync_event\<close> depends on the platform; the driver of the repository's tests
  does.  The listener makes all its driver calls while \<open>is_replaying\<close> is set, so such a
  nested call takes the first branch of \<open>process_sync_event\<close>, whose only effect is on
  \<open>logically_pressed_keys\<close>.  \<open>echo\<close> says whether the driver delivers injected events
  back.
\<close>

definition driver_echo :: "bool \<Rightarrow> driver_call \<Rightarrow> listener \<Rightarrow> listener" where
  "driver_echo echo c l =
     (if \<not> echo then l
      else case c of
             Press k \<Rightarrow> l\<lparr>logically_pressed_keys := insert k (logically_pressed_keys l)\<rparr>
           | Release k \<Rightarrow> l\<lparr>logically_pressed_keys := logically_pressed_keys l - {k}\<rparr>)"

text \<open>
  The list comprehension \<open>[run_hook(hook) for hook in self.suppressing_hooks]\<close>: the hooks
  after the call, their dicts, and the number of callback calls.
\<close>

fun run_hooks ::
  "int set \<Rightarrow> hook list \<Rightarrow> keyboard_event \<Rightarrow> int set \<Rightarrow> int set \<Rightarrow> int set \<Rightarrow>
   error + (hook list \<times> decisions list \<times> nat)" where
  "run_hooks msc [] e phys logical mods = Inr ([], [], 0)"
| "run_hooks msc (h # hs) e phys logical mods =
     (case process_event msc h e phys logical mods of
        Inl err \<Rightarrow> Inl err
      | Inr (h', d, c) \<Rightarrow>
          (case run_hooks msc hs e phys logical mods of
             Inl err \<Rightarrow> Inl err
           | Inr (hs', ds, c') \<Rightarrow> Inr (h' # hs', d # ds, c + c')))"

text \<open>
  \<open>self.suspended_event_pairs.remove((suspended_event, suspended_modifiers))\<close>: tuples are
  equal when the events are equal by \<open>__eq__\<close> and the sets are equal.  The pair has just
  been read from a copy of the list, so it is there.
\<close>

fun remove_pair ::
  "keyboard_event \<times> int set \<Rightarrow> (keyboard_event \<times> int set) list \<Rightarrow> (keyboard_event \<times> int set) list" where
  "remove_pair x [] = []"
| "remove_pair x (y # ys) =
     (if event_eq (fst y) (fst x) \<and> snd y = snd x then ys else y # remove_pair x ys)"

text \<open>
  The loop over \<open>list(self.suspended_event_pairs)\<close>.  The accumulator is the list
  \<open>suspended_event_pairs\<close>, the set \<open>temporary_modifiers_state\<close> and the driver calls made.
\<close>

fun replay_suspended ::
  "decisions list \<Rightarrow> (keyboard_event \<times> int set) list \<Rightarrow>
   (keyboard_event \<times> int set) list \<times> int set \<times> driver_call list \<Rightarrow>
   error + ((keyboard_event \<times> int set) list \<times> int set \<times> driver_call list)" where
  "replay_suspended hooks_decisions [] acc = Inr acc"
| "replay_suspended hooks_decisions ((suspended_event, suspended_modifiers) # rest) (pairs, tmp, calls) =
     (case merge_decisions hooks_decisions suspended_event of
        Inl err \<Rightarrow> Inl err
      | Inr SUSPEND \<Rightarrow> replay_suspended hooks_decisions rest (pairs, tmp, calls)
      | Inr SUPPRESS \<Rightarrow>
          replay_suspended hooks_decisions rest
            (remove_pair (suspended_event, suspended_modifiers) pairs, tmp, calls)
      | Inr ALLOW \<Rightarrow>
          (let released = sorted_list_of_set (tmp - suspended_modifiers);
               tmp1 = tmp - set released;
               pressed = sorted_list_of_set (suspended_modifiers - tmp1);
               tmp2 = tmp1 \<union> set pressed;
               replay = (if event_type suspended_event = KEY_DOWN
                         then Press (scan_code suspended_event)
                         else Release (scan_code suspended_event))
           in replay_suspended hooks_decisions rest
                (remove_pair (suspended_event, suspended_modifiers) pairs, tmp2,
                 calls @ map Release released @ map Press pressed @ [replay])))"

text \<open>
  \<open>run_sync_hooks\<close>.  The result is the listener, the decision returned, the driver calls
  and the number of callback calls.
\<close>

definition run_sync_hooks ::
  "int set \<Rightarrow> bool \<Rightarrow> listener \<Rightarrow> keyboard_event \<Rightarrow>
   error + (listener \<times> decision \<times> driver_call list \<times> nat)" where
  "run_sync_hooks msc echo l e =
     (case run_hooks msc (suppressing_hooks l) e (physically_pressed_keys l)
             (logically_pressed_keys l) (active_modifiers l) of
        Inl err \<Rightarrow> Inl err
      | Inr (hooks', ds, n_calls) \<Rightarrow>
          (let hooks_decisions = or_empty_dict ds;
               l1 = l\<lparr>suppressing_hooks := hooks', is_replaying := True\<rparr>
           in case replay_suspended hooks_decisions (suspended_event_pairs l1)
                     (suspended_event_pairs l1, active_modifiers l1, []) of
                Inl err \<Rightarrow> Inl err
              | Inr (pairs, tmp, calls) \<Rightarrow>
                  (let calls' = calls
                         @ map Press (sorted_list_of_set (active_modifiers l1 - tmp))
                         @ map Release (sorted_list_of_set (tmp - active_modifiers l1));
                       l2 = (fold (driver_echo echo) calls' l1)
                              \<lparr>suspended_event_pairs := pairs, is_replaying := False\<rparr>
                   in case merge_decisions hooks_decisions e of
                        Inl err \<Rightarrow> Inl err
                      | Inr SUSPEND \<Rightarrow>
                          Inr (l2\<lparr>suspended_event_pairs :=
                                     suspended_event_pairs l2 @ [(e, active_modifiers l2)]\<rparr>,
                               SUPPRESS, calls', n_calls)
                      | Inr SUPPRESS \<Rightarrow> Inr (l2, SUPPRESS, calls', n_calls)
                      | Inr ALLOW \<Rightarrow> Inr (l2, ALLOW, calls', n_calls))))"

text \<open>The update of \<open>logically_pressed_keys\<close> at the end of \<open>process_sync_event\<close>.\<close>

definition allow_event :: "listener \<Rightarrow> keyboard_event \<Rightarrow> listener" where
  "allow_event l e =
     (if event_type e = KEY_DOWN
      then l\<lparr>logically_pressed_keys := insert (scan_code e) (logically_pressed_keys l)\<rparr>
      else if event_type e = KEY_UP
      then l\<lparr>logically_pressed_keys := logically_pressed_keys l - {scan_code e}\<rparr>
      else l)"

text \<open>The update of the pressed keys and modifiers at the start of \<open>process_sync_event\<close>.\<close>

definition update_pressed :: "int set \<Rightarrow> listener \<Rightarrow> keyboard_event \<Rightarrow> listener" where
  "update_pressed msc l e =
     (let l1 = (if event_type e = KEY_DOWN
                then l\<lparr>physically_pressed_keys := insert (scan_code e) (physically_pressed_keys l)\<rparr>
                else if event_type e = KEY_UP
                then l\<lparr>physically_pressed_keys := physically_pressed_keys l - {scan_code e}\<rparr>
                else l)
      in if scan_code e \<in> msc
         then (if event_type e = KEY_DOWN
               then l1\<lparr>active_modifiers := insert (scan_code e) (active_modifiers l1)\<rparr>
               else if event_type e = KEY_UP
               then l1\<lparr>active_modifiers := active_modifiers l1 - {scan_code e}\<rparr>
               else l1)
         else l1)"

text \<open>
  \<open>process_sync_event\<close>.  The result is the listener, the value returned to the driver
  (\<open>True\<close>: the event is allowed), the driver calls and the number of callback calls.
\<close>

definition process_sync_event ::
  "int set \<Rightarrow> bool \<Rightarrow> listener \<Rightarrow> keyboard_event \<Rightarrow>
   error + (listener \<times> bool \<times> driver_call list \<times> nat)" where
  "process_sync_event msc echo l e =
     (case (if is_replaying l then Inr (l, ALLOW, [], 0)
            else (let l1 = update_pressed msc l e;
                      l2 = l1\<lparr>async_events_queue := async_events_queue l1 @ [e]\<rparr>
                  in run_sync_hooks msc echo l2 e)) of
        Inl err \<Rightarrow> Inl err
      | Inr (l', decision, calls, n_calls) \<Rightarrow>
          (if decision = ALLOW then Inr (allow_event l' e, True, calls, n_calls)
           else Inr (l', False, calls, n_calls)))"

text \<open>
  What is seen downstream of the listener while the driver delivers a sequence of events:
  the events the listener injects through the driver while it processes an event, then
  the event itself when the listener allows it.
\<close>

datatype emitted = Passed keyboard_event | Injected driver_call

fun feed ::
  "int set \<Rightarrow> bool \<Rightarrow> listener \<Rightarrow> keyboard_event list \<Rightarrow>
   error + (listener \<times> bool list \<times> emitted list)" where
  "feed msc echo l [] = Inr (l, [], [])"
| "feed msc echo l (e # es) =
     (case process_sync_event msc echo l e of
        Inl err \<Rightarrow> Inl err
      | Inr (l', allowed, calls, n_calls) \<Rightarrow>
          (case feed msc echo l' es of
             Inl err \<Rightarrow> Inl err
           | Inr (l'', results, out) \<Rightarrow>
               Inr (l'', allowed # results,
                    map Injected calls @ (if allowed then [Passed e] else []) @ out)))"


section \<open>Parsing hotkeys: \<open>key_to_scan_codes\<close>, \<open>parse_hotkey\<close>, \<open>add_hotkey\<close>\<close>

text \<open>
  A list comprehension whose element expression can raise: the first exception ends it.
\<close>

fun map_err :: "('a \<Rightarrow> error + 'b) \<Rightarrow> 'a list \<Rightarrow> error + 'b list" where
  "map_err f [] = Inr []"
| "map_err f (x # xs) =
     (case f x of
        Inl err \<Rightarrow> Inl err
      | Inr y \<Rightarrow> (case map_err f xs of Inl err \<Rightarrow> Inl err | Inr ys \<Rightarrow> Inr (y # ys)))"

text \<open>
  \<open>tuple(OrderedDict((scan_code, True) for scan_code, modifier in ...))\<close>: the scan codes
  without repetition, each at its first position.
\<close>

definition ordered_dedup :: "int list \<Rightarrow> int list" where
  "ordered_dedup xs = rev (remdups (rev xs))"

text \<open>
  The device driver's \<open>map_name\<close> is an argument \<open>mp\<close>: \<open>None\<close> when it raises
  \<open>KeyError\<close> or \<open>ValueError\<close>, otherwise the pairs \<open>(scan_code, modifiers)\<close> it yields.
  The part of \<open>key_to_scan_codes\<close> after the test for sided modifiers:
\<close>

definition lookup_scan_codes ::
  "(string \<Rightarrow> (int \<times> 'm) list option) \<Rightarrow> string \<Rightarrow> bool \<Rightarrow> error + int list" where
  "lookup_scan_codes mp normalized error_if_missing =
     (let t = (case mp normalized of None \<Rightarrow> [] | Some ps \<Rightarrow> ordered_dedup (map fst ps))
      in if t = [] \<and> error_if_missing then Inl ValueError else Inr t)"

text \<open>
  \<open>key_to_scan_codes\<close> calls itself on the elements of a list and on the two sided
  names of a modifier.  \<open>depth\<close> is the number of nested calls the interpreter still
  allows; when it is used up Python raises \<open>RecursionError\<close>.
\<close>

fun key_to_scan_codes_depth ::
  "nat \<Rightarrow> (string \<times> string) list \<Rightarrow> (string \<Rightarrow> (int \<times> 'm) list option) \<Rightarrow> pyval \<Rightarrow> bool \<Rightarrow>
   error + int list" where
  "key_to_scan_codes_depth 0 cn mp k error_if_missing = Inl RecursionError"
| "key_to_scan_codes_depth (Suc depth) cn mp (PInt i) error_if_missing = Inr [i]"
| "key_to_scan_codes_depth (Suc depth) cn mp (PList ks) error_if_missing =
     (case map_err (\<lambda>i. key_to_scan_codes_depth depth cn mp i True) ks of
        Inl err \<Rightarrow> Inl err
      | Inr ts \<Rightarrow> Inr (concat ts))"
| "key_to_scan_codes_depth (Suc depth) cn mp PNone error_if_missing = Inl ValueError"
| "key_to_scan_codes_depth (Suc depth) cn mp (PStr s) error_if_missing =
     (case normalize_name cn s of
        Inl err \<Rightarrow> Inl err
      | Inr normalized \<Rightarrow>
          (if normalized \<in> set sided_modifiers
           then (case key_to_scan_codes_depth depth cn mp (PStr (''left '' @ normalized)) False of
                   Inl err \<Rightarrow> Inl err
                 | Inr left_scan_codes \<Rightarrow>
                     (case key_to_scan_codes_depth depth cn mp (PStr (''right '' @ normalized)) False of
                        Inl err \<Rightarrow> Inl err
                      | Inr right_scan_codes \<Rightarrow>
                          Inr (left_scan_codes @
                               filter (\<lambda>c. c \<notin> set left_scan_codes) right_scan_codes)))
           else lookup_scan_codes mp normalized error_if_missing))"

definition recursion_limit :: nat where
  "recursion_limit = 1000"

definition key_to_scan_codes ::
  "(string \<times> string) list \<Rightarrow> (string \<Rightarrow> (int \<times> 'm) list option) \<Rightarrow> pyval \<Rightarrow> bool \<Rightarrow> error + int list" where
  "key_to_scan_codes cn mp k error_if_missing =
     key_to_scan_codes_depth recursion_limit cn mp k error_if_missing"

text \<open>
  \<open>re.split\<close> with the two patterns of \<open>parse_hotkey\<close>.  \<open>\s\<close> on ASCII text matches
  the six characters of \<open>[ \t\n\r\f\v]\<close> and the four separators \<open>0x1C\<close> to \<open>0x1F\<close>.
  \<open>cur\<close> is the piece being read, reversed.
\<close>

definition is_space :: "char \<Rightarrow> bool" where
  "is_space c = ((of_char c :: nat) \<in> {32, 9, 10, 11, 12, 13, 28, 29, 30, 31})"

text \<open>Pattern \<open>,\s?\<close>: a comma and, when one follows, one white-space character.\<close>

fun split_comma_from :: "string \<Rightarrow> string \<Rightarrow> string list" where
  "split_comma_from cur [] = [rev cur]"
| "split_comma_from cur (c # cs) =
     (if c = CHR '',''
      then rev cur # (case cs of
                        [] \<Rightarrow> split_comma_from [] []
                      | d # ds \<Rightarrow> if is_space d then split_comma_from [] ds
                                  else split_comma_from [] (d # ds))
      else split_comma_from (c # cur) cs)"

definition split_comma :: "string \<Rightarrow> string list" where
  "split_comma s = split_comma_from [] s"

text \<open>
  Pattern \<open>\s?\+\s?\<close>: a plus sign with at most one white-space character on each side.
  \<open>skip\<close> says that a plus sign has just been matched, so that one white-space character
  that follows belongs to the match.
\<close>

fun split_plus_from :: "bool \<Rightarrow> string \<Rightarrow> string \<Rightarrow> string list" where
  "split_plus_from skip cur [] = [rev cur]"
| "split_plus_from skip cur (c # cs) =
     (if skip \<and> is_space c then split_plus_from False cur cs
      else if c = CHR ''+'' then rev cur # split_plus_from True [] cs
      else (case cs of
              [] \<Rightarrow> split_plus_from False (c # cur) cs
            | d # ds \<Rightarrow>
                if is_space c \<and> d = CHR ''+'' then rev cur # split_plus_from True [] ds
                else split_plus_from False (c # cur) cs))"

definition split_plus :: "string \<Rightarrow> string list" where
  "split_plus s = split_plus_from False [] s"

text \<open>
  \<open>Key(None, k)\<close> for a raw value \<open>k\<close>: \<open>tuple(k)\<close> needs an iterable, and the assertion
  wants at least one element and numbers only.
\<close>

fun the_ints :: "pyval list \<Rightarrow> int list option" where
  "the_ints [] = Some []"
| "the_ints (PInt i # vs) = (case the_ints vs of None \<Rightarrow> None | Some is \<Rightarrow> Some (i # is))"
| "the_ints (_ # vs) = None"

fun Key_raw :: "pyval \<Rightarrow> pyval \<Rightarrow> error + key" where
  "Key_raw l (PList vs) =
     (case the_ints vs of None \<Rightarrow> Inl AssertionError | Some is \<Rightarrow> Key l is)"
| "Key_raw l (PStr s) = Inl AssertionError"
| "Key_raw l (PInt i) = Inl TypeError"
| "Key_raw l PNone = Inl TypeError"

text \<open>Iterating over a raw value: a list gives its elements, a string its characters.\<close>

fun py_iter :: "pyval \<Rightarrow> error + pyval list" where
  "py_iter (PList vs) = Inr vs"
| "py_iter (PStr s) = Inr (map (\<lambda>c. PStr [c]) s)"
| "py_iter (PInt i) = Inl TypeError"
| "py_iter PNone = Inl TypeError"

fun is_list :: "pyval \<Rightarrow> bool" where
  "is_list (PList vs) = True"
| "is_list _ = False"

text \<open>\<open>Step([Key(name, key_to_scan_codes(name)) for name in names])\<close>\<close>

definition named_key ::
  "(string \<times> string) list \<Rightarrow> (string \<Rightarrow> (int \<times> 'm) list option) \<Rightarrow> pyval \<Rightarrow> error + key" where
  "named_key cn mp k =
     (case key_to_scan_codes cn mp k True of Inl err \<Rightarrow> Inl err | Inr scs \<Rightarrow> Key k scs)"

definition named_step ::
  "(string \<times> string) list \<Rightarrow> (string \<Rightarrow> (int \<times> 'm) list option) \<Rightarrow> int set \<Rightarrow> pyval list \<Rightarrow>
   error + step" where
  "named_step cn mp msc ks =
     (case map_err (named_key cn mp) ks of Inl err \<Rightarrow> Inl err | Inr keys' \<Rightarrow> Step msc keys')"

text \<open>\<open>Step(Key(None, k) for k in step)\<close>\<close>

definition raw_step :: "int set \<Rightarrow> pyval \<Rightarrow> error + step" where
  "raw_step msc v =
     (case py_iter v of
        Inl err \<Rightarrow> Inl err
      | Inr ks \<Rightarrow>
          (case map_err (Key_raw PNone) ks of Inl err \<Rightarrow> Inl err | Inr keys' \<Rightarrow> Step msc keys'))"

text \<open>
  The argument of \<open>parse_hotkey\<close> is a \<open>Hotkey\<close> object or a raw value.  \<open>len\<close> of a
  number is not evaluated (\<open>or\<close>), \<open>len(None)\<close> is a \<open>TypeError\<close>.
\<close>

datatype hotkey_arg = AHotkey hotkey | AValue pyval

fun parse_hotkey ::
  "(string \<times> string) list \<Rightarrow> (string \<Rightarrow> (int \<times> 'm) list option) \<Rightarrow> int set \<Rightarrow> hotkey_arg \<Rightarrow>
   error + hotkey" where
  "parse_hotkey cn mp msc (AHotkey hk) = Inr hk"
| "parse_hotkey cn mp msc (AValue PNone) = Inl TypeError"
| "parse_hotkey cn mp msc (AValue (PInt i)) =
     (case named_step cn mp msc [PInt i] of Inl err \<Rightarrow> Inl err | Inr st \<Rightarrow> Inr (Hotkey [st]))"
| "parse_hotkey cn mp msc (AValue (PList vs)) =
     (if length vs = 1
      then (case named_key cn mp (PList vs) of
              Inl err \<Rightarrow> Inl err
            | Inr k \<Rightarrow> (case Step msc [k] of Inl err \<Rightarrow> Inl err | Inr st \<Rightarrow> Inr (Hotkey [st])))
      else if \<not> (\<exists>v \<in> set vs. is_list v)
      then (case named_step cn mp msc vs of Inl err \<Rightarrow> Inl err | Inr st \<Rightarrow> Inr (Hotkey [st]))
      else (case map_err (raw_step msc) vs of Inl err \<Rightarrow> Inl err | Inr sts \<Rightarrow> Inr (Hotkey sts)))"
| "parse_hotkey cn mp msc (AValue (PStr s)) =
     (if length s = 1
      then (case named_step cn mp msc [PStr s] of Inl err \<Rightarrow> Inl err | Inr st \<Rightarrow> Inr (Hotkey [st]))
      else (case map_err (\<lambda>step_text. named_step cn mp msc (map PStr (split_plus step_text)))
                   (split_comma s) of
              Inl err \<Rightarrow> Inl err
            | Inr sts \<Rightarrow> Inr (Hotkey sts)))"

text \<open>
  \<open>add_hotkey\<close>: parse, build the hook, register it.  The wrapping of the callback with
  \<open>args\<close> does not change what is registered and is left out.
\<close>

definition add_hotkey ::
  "(string \<times> string) list \<Rightarrow> (string \<Rightarrow> (int \<times> 'm) list option) \<Rightarrow> int set \<Rightarrow> listener \<Rightarrow>
   hotkey_arg \<Rightarrow> (unit \<Rightarrow> cb_result) \<Rightarrow> bool \<Rightarrow> rat \<Rightarrow> bool \<Rightarrow> error + listener" where
  "add_hotkey cn mp msc l hk cb suppress tmo tor =
     (case parse_hotkey cn mp msc hk of
        Inl err \<Rightarrow> Inl err
      | Inr parsed_hotkey \<Rightarrow>
          (case HotkeyHook_init parsed_hotkey tmo tor cb of
             Inl err \<Rightarrow> Inl err
           | Inr hook_obj \<Rightarrow> Inr (register l (HotkeyHook hook_obj) suppress)))"

section \<open>Sequences of calls of a hotkey hook\<close>

text \<open>
  The hooks a \<open>_HotkeyHook\<close> becomes under a sequence of calls of \<open>process_event\<close>, one
  per call that returns.  A call is the event with the three sets the listener passes.
  A call that raises does so in its first two statements, before anything is assigned,
  and leaves the hook as it was.
\<close>

fun hook_trace ::
  "int set \<Rightarrow> hotkey_hook \<Rightarrow> (keyboard_event \<times> int set \<times> int set \<times> int set) list \<Rightarrow>
   hotkey_hook list" where
  "hook_trace msc h [] = []"
| "hook_trace msc h ((e, phys, logical, mods) # calls) =
     (case HotkeyHook_process_event msc h e phys logical mods of
        Inl err \<Rightarrow> hook_trace msc h calls
      | Inr (h', d, c) \<Rightarrow> h' # hook_trace msc h' calls)"

section \<open>Key names of a hotkey string\<close>

text \<open>
  The key names \<open>parse_hotkey\<close> looks up for a hotkey given as a string: the string itself
  when it has one character, otherwise the pieces between the separators.
\<close>

definition hotkey_key_names :: "string \<Rightarrow> string list" where
  "hotkey_key_names s =
     (if length s = 1 then [s] else concat (map split_plus (split_comma s)))"

text \<open>A lookup that raised or found no scan code.\<close>

fun no_scan_code :: "error + int list \<Rightarrow> bool" where
  "no_scan_code (Inl err) = True"
| "no_scan_code (Inr []) = True"
| "no_scan_code (Inr (c # cs)) = False"

section \<open>Concrete inputs\<close>

text \<open>Events as the tests of the repository make them: a type, a scan code and a time.\<close>

definition make_event :: "string \<Rightarrow> int \<Rightarrow> rat \<Rightarrow> keyboard_event" where
  "make_event et sc t =
     \<lparr> event_type = et, scan_code = sc, name = None, time = t, device = None,
       modifiers = [], is_numpad = None, char_attr = [] \<rparr>"

text \<open>Callbacks: of a simple hook (they take the event) and of a key or hotkey hook.\<close>

definition allow_all :: "keyboard_event \<Rightarrow> cb_result" where
  "allow_all e = Decision ALLOW"

definition suspend_all :: "keyboard_event \<Rightarrow> cb_result" where
  "suspend_all e = Decision SUSPEND"

definition returns_none :: "unit \<Rightarrow> cb_result" where
  "returns_none u = Other"

definition returns_suspend :: "unit \<Rightarrow> cb_result" where
  "returns_suspend u = Decision SUSPEND"

text \<open>A listener with one hook that allows every event, as in \<open>test_allowing_hook\<close>.\<close>

definition allowing_listener :: listener where
  "allowing_listener = register KeyboardListener_init (SimpleHook allow_all) True"

text \<open>A listener with one hook that suspends every event.\<close>

definition suspending_listener :: listener where
  "suspending_listener = register KeyboardListener_init (SimpleHook suspend_all) True"

text \<open>A listener in the middle of a replay.\<close>

definition replaying_listener :: listener where
  "replaying_listener = KeyboardListener_init\<lparr>is_replaying := True\<rparr>"

text \<open>
  A family of hooks that decide \<open>ALLOW\<close> for every event: whatever the event and the
  pressed keys, a hook of the family returns a dict that gives \<open>ALLOW\<close> for every key,
  and stays in the family.
\<close>

definition allow_only_family :: "int set \<Rightarrow> hook set \<Rightarrow> bool" where
  "allow_only_family msc I =
     (\<forall>h \<in> I. \<forall>e phys logical mods.
        \<exists>h' d c. process_event msc h e phys logical mods = Inr (h', d, c) \<and> h' \<in> I \<and>
                 (\<forall>k. dict_get d k ALLOW = ALLOW))"



text \<open>
  The hotkey \<open>ctrl+a, b\<close> with two scan codes for \<open>ctrl\<close> (29 left, 157 right), 30 for
  \<open>a\<close> and 48 for \<open>b\<close>, as \<open>parse_hotkey\<close> builds it when 29 and 157 are modifiers.
\<close>

definition key_ctrl :: key where
  "key_ctrl = \<lparr> label = PStr ''ctrl'', scan_codes = [29, 157] \<rparr>"

definition key_a :: key where
  "key_a = \<lparr> label = PStr ''a'', scan_codes = [30] \<rparr>"

definition key_b :: key where
  "key_b = \<lparr> label = PStr ''b'', scan_codes = [48] \<rparr>"

definition hotkey_ctrl_a_b :: hotkey where
  "hotkey_ctrl_a_b =
     Hotkey [\<lparr> keys = [key_ctrl, key_a], step_modifiers = [key_ctrl], is_standard = True,
               main_key = Some key_a \<rparr>,
             \<lparr> keys = [key_b], step_modifiers = [], is_standard = True,
               main_key = Some key_b \<rparr>]"

text \<open>The calls that type \<open>ctrl+a, b\<close>: ctrl down, a down, a up, ctrl up, b down.\<close>

definition calls_ctrl_a_b :: "(keyboard_event \<times> int set \<times> int set \<times> int set) list" where
  "calls_ctrl_a_b =
     [(make_event KEY_DOWN 29 1, {29}, {}, {29}),
      (make_event KEY_DOWN 30 2, {29, 30}, {29}, {29}),
      (make_event KEY_UP 30 3, {29}, {29}, {29}),
      (make_event KEY_UP 29 4, {}, {29}, {}),
      (make_event KEY_DOWN 48 5, {48}, {}, {})]"

text \<open>The hook of a \<open>Hotkey\<close> object without steps, as \<open>_HotkeyHook.__init__\<close> makes it.\<close>

definition no_steps_hook :: hotkey_hook where
  "no_steps_hook =
     \<lparr> callback = returns_none, hotkey = Hotkey [], timeout = 1, trigger_on_release = False,
       transitions = Map.empty, state = 0, suspended_events = [],
       scan_code_releases_to_suppress = {} \<rparr>"

text \<open>
  The two-step hotkey \<open>0, 1\<close> of \<open>test_single_keys_multistep_blocking_hotkey\<close> with its
  table, and its hook (time-out one second) after key 0 went down at time 0 and up at
  time 1: the first step is matched and both events are suspended.
\<close>

definition hotkey_0_1 :: hotkey where
  "hotkey_0_1 =
     Hotkey [\<lparr> keys = [\<lparr> label = PNone, scan_codes = [0] \<rparr>], step_modifiers = [],
               is_standard = True, main_key = Some \<lparr> label = PNone, scan_codes = [0] \<rparr> \<rparr>,
             \<lparr> keys = [\<lparr> label = PNone, scan_codes = [1] \<rparr>], step_modifiers = [],
               is_standard = True, main_key = Some \<lparr> label = PNone, scan_codes = [1] \<rparr> \<rparr>]"

definition table_0_1 :: transitions where
  "table_0_1 = [(0, [0]) \<mapsto> 1, (1, [0]) \<mapsto> 1, (1, [1]) \<mapsto> 2]"

definition hook_0_1 :: hotkey_hook where
  "hook_0_1 =
     \<lparr> callback = returns_none, hotkey = hotkey_0_1, timeout = 1, trigger_on_release = False,
       transitions = table_0_1, state = 0, suspended_events = [],
       scan_code_releases_to_suppress = {} \<rparr>"

definition hook_0_1_waiting :: hotkey_hook where
  "hook_0_1_waiting =
     hook_0_1\<lparr>state := 1,
              suspended_events := [make_event KEY_DOWN 0 0, make_event KEY_UP 0 1]\<rparr>"

text \<open>
  The one-step chord \<open>0+1\<close> of \<open>test_combo_hotkey\<close> (no modifier, so the step is not
  standard), and its hook after key 0 went down at time 0: the event is suspended.
\<close>

definition hotkey_chord :: hotkey where
  "hotkey_chord =
     Hotkey [\<lparr> keys = [\<lparr> label = PInt 0, scan_codes = [0] \<rparr>, \<lparr> label = PInt 1, scan_codes = [1] \<rparr>],
               step_modifiers = [], is_standard = False, main_key = None \<rparr>]"

definition table_chord :: transitions where
  "table_chord = [(0, [0, 1]) \<mapsto> 1]"

definition hook_chord :: hotkey_hook where
  "hook_chord =
     \<lparr> callback = returns_none, hotkey = hotkey_chord, timeout = 1, trigger_on_release = False,
       transitions = table_chord, state = 0, suspended_events = [],
       scan_code_releases_to_suppress = {} \<rparr>"

definition hook_chord_waiting :: hotkey_hook where
  "hook_chord_waiting = hook_chord\<lparr>suspended_events := [make_event KEY_DOWN 0 0]\<rparr>"

text \<open>
  A driver that knows no key name at all, and one that knows \<open>a\<close> and the two sides of
  \<open>ctrl\<close>.
\<close>

definition nomap :: "string \<Rightarrow> (int \<times> bool) list option" where
  "nomap n = None"

definition small_map :: "string \<Rightarrow> (int \<times> bool) list option" where
  "small_map n =
     (if n = ''a'' then Some [(30, False)]
      else if n = ''left ctrl'' then Some [(29, False)]
      else if n = ''right ctrl'' then Some [(157, False)]
      else None)"

text \<open>The hotkey and the hook that \<open>add_hotkey(99999, callback)\<close> makes.\<close>

definition hotkey_99999 :: hotkey where
  "hotkey_99999 =
     Hotkey [\<lparr> keys = [\<lparr> label = PInt 99999, scan_codes = [99999] \<rparr>], step_modifiers = [],
               is_standard = True,
               main_key = Some \<lparr> label = PInt 99999, scan_codes = [99999] \<rparr> \<rparr>]"

definition hook_99999 :: hotkey_hook where
  "hook_99999 =
     \<lparr> callback = returns_none, hotkey = hotkey_99999, timeout = 1, trigger_on_release = False,
       transitions = [(0, [99999]) \<mapsto> 1], state = 0, suspended_events = [],
       scan_code_releases_to_suppress = {} \<rparr>"

section \<open>Invariants used in the proofs\<close>

text \<open>Every value stored in a transition table lies between 0 and \<open>b\<close>.\<close>

definition bounded :: "transitions \<Rightarrow> int \<Rightarrow> bool" where
  "bounded t b = (\<forall>k v. t k = Some v \<longrightarrow> 0 \<le> v \<and> v \<le> b)"

text \<open>
  The invariant of a hook over the hotkey \<open>hk\<close>: the state and every value of the table
  lie between 0 and the number of steps.
\<close>

definition hook_inv :: "hotkey \<Rightarrow> hotkey_hook \<Rightarrow> bool" where
  "hook_inv hk h =
     (hotkey h = hk \<and> 0 \<le> state h \<and> state h \<le> int (length (steps hk)) \<and>
      bounded (transitions h) (int (length (steps hk))))"

section \<open>Properties\<close>

subsection \<open>Merging decisions\<close>

lemma max_step_cases:
  "max_step a b = (if a = SUPPRESS \<or> b = SUPPRESS then SUPPRESS
                   else if a = SUSPEND \<or> b = SUSPEND then SUSPEND else ALLOW)"
  by (cases a; cases b) (simp_all add: max_step_def enum_lt_def)

lemma foldl_max_step:
  "foldl max_step d ds =
     (if SUPPRESS \<in> set (d # ds) then SUPPRESS
      else if SUSPEND \<in> set (d # ds) then SUSPEND else ALLOW)"
proof (induction ds arbitrary: d)
  case Nil
  show ?case by (cases d) simp_all
next
  case (Cons x xs)
  show ?case
    unfolding foldl_Cons Cons.IH max_step_cases [of d x]
    by (cases d; cases x) auto
qed

lemma enum_n_foldl_max_step: "enum_n (foldl max_step d ds) = Max (enum_n ` set (d # ds))"
proof (induction ds arbitrary: d)
  case Nil
  show ?case by simp
next
  case (Cons x xs)
  have "enum_n (max_step d x) = max (enum_n d) (enum_n x)"
    by (simp add: max_step_def enum_lt_def)
  then show ?case
    using Cons.IH [of "max_step d x"]
    by (cases "xs = []") (simp_all add: max.assoc)
qed

lemma py_max_set:
  "py_max (d # ds) =
     Inr (if SUPPRESS \<in> set (d # ds) then SUPPRESS
          else if SUSPEND \<in> set (d # ds) then SUSPEND else ALLOW)"
  unfolding py_max.simps foldl_max_step ..

lemma py_max_mset: "mset xs = mset (d # ds) \<Longrightarrow> py_max xs = py_max (d # ds)"
proof -
  assume eq: "mset xs = mset (d # ds)"
  then have "xs \<noteq> []" by auto
  then obtain y ys where xs: "xs = y # ys" by (cases xs) auto
  have "set (y # ys) = set (d # ds)" using eq xs by (metis mset_eq_setD)
  then show ?thesis unfolding xs py_max_set by simp
qed

lemma merge_decisions_or_empty:
  "merge_decisions (or_empty_dict hds) ev =
     Inr (if \<exists>d \<in> set hds. dict_get d ev ALLOW = SUPPRESS then SUPPRESS
          else if \<exists>d \<in> set hds. dict_get d ev ALLOW = SUSPEND then SUSPEND else ALLOW)"
proof (cases hds)
  case Nil
  then show ?thesis by (simp add: merge_decisions_def or_empty_dict_def)
next
  case (Cons h hs)
  have "merge_decisions (h # hs) ev =
          py_max (dict_get h ev ALLOW # map (\<lambda>d. dict_get d ev ALLOW) hs)"
    by (simp add: merge_decisions_def)
  also have "\<dots> = Inr (if SUPPRESS \<in> set (map (\<lambda>d. dict_get d ev ALLOW) (h # hs)) then SUPPRESS
          else if SUSPEND \<in> set (map (\<lambda>d. dict_get d ev ALLOW) (h # hs)) then SUSPEND else ALLOW)"
    unfolding py_max_set by simp
  also have "\<dots> = Inr (if \<exists>d \<in> set (h # hs). dict_get d ev ALLOW = SUPPRESS then SUPPRESS
          else if \<exists>d \<in> set (h # hs). dict_get d ev ALLOW = SUSPEND then SUSPEND else ALLOW)"
  proof -
    have mem: "c \<in> set (map (\<lambda>d. dict_get d ev ALLOW) (h # hs)) \<longleftrightarrow>
               (\<exists>d \<in> set (h # hs). dict_get d ev ALLOW = c)" for c
      by auto
    show ?thesis unfolding mem ..
  qed
  finally show ?thesis using Cons by (simp add: or_empty_dict_def)
qed

text \<open>
  C2.  The merge of the decisions the hooks give for one event is \<open>max\<close> under
  \<open>ALLOW (0) < SUSPEND (1) < SUPPRESS (2)\<close>; it is associative and commutative; it is
  \<open>SUPPRESS\<close> when some hook said \<open>SUPPRESS\<close>, else \<open>SUSPEND\<close> when some hook said
  \<open>SUSPEND\<close>, else \<open>ALLOW\<close>; it does not depend on the order of the hooks; a hook whose
  dict has no entry for the event counts as \<open>ALLOW\<close>.
\<close>

theorem decision_merge_is_max:
  "(enum_lt a b \<longleftrightarrow> enum_n a < enum_n b)
   \<and> enum_n ALLOW = 0 \<and> enum_n SUSPEND = 1 \<and> enum_n SUPPRESS = 2
   \<and> py_max [a, b] = Inr (max_step a b)
   \<and> enum_n (max_step a b) = max (enum_n a) (enum_n b)
   \<and> max_step (max_step a b) c = max_step a (max_step b c)
   \<and> max_step a b = max_step b a
   \<and> py_max (d # ds) =
        Inr (if SUPPRESS \<in> set (d # ds) then SUPPRESS
             else if SUSPEND \<in> set (d # ds) then SUSPEND else ALLOW)
   \<and> (\<exists>m. py_max (d # ds) = Inr m \<and> enum_n m = Max (enum_n ` set (d # ds)))
   \<and> (mset xs = mset (d # ds) \<longrightarrow> py_max xs = py_max (d # ds))
   \<and> dict_get [] ev ALLOW = ALLOW
   \<and> merge_decisions (or_empty_dict hds) ev =
        Inr (if \<exists>h \<in> set hds. dict_get h ev ALLOW = SUPPRESS then SUPPRESS
             else if \<exists>h \<in> set hds. dict_get h ev ALLOW = SUSPEND then SUSPEND else ALLOW)"
proof -
  have assoc: "max_step (max_step a b) c = max_step a (max_step b c)"
    by (cases a; cases b; cases c) (simp_all add: max_step_def enum_lt_def)
  have comm: "max_step a b = max_step b a"
    by (cases a; cases b) (simp_all add: max_step_def enum_lt_def)
  have n: "enum_n (max_step a b) = max (enum_n a) (enum_n b)"
    by (simp add: max_step_def enum_lt_def)
  have mx: "\<exists>m. py_max (d # ds) = Inr m \<and> enum_n m = Max (enum_n ` set (d # ds))"
    using enum_n_foldl_max_step [of d ds] by simp
  show ?thesis
    using assoc comm n mx py_max_set [of d ds] py_max_mset [of xs d ds]
      merge_decisions_or_empty [of hds ev]
    by (simp add: enum_lt_def)
qed

text \<open>The example of the specification: \<open>{Allow, Suspend, Allow}\<close> merge to \<open>Suspend\<close>.\<close>

theorem decision_merge_is_max_witness:
  "mset [SUSPEND, ALLOW, ALLOW] = mset [ALLOW, SUSPEND, ALLOW]
   \<and> py_max [SUSPEND, ALLOW, ALLOW] = py_max [ALLOW, SUSPEND, ALLOW]
   \<and> py_max [ALLOW, SUSPEND, ALLOW] = Inr SUSPEND"
  using decision_merge_is_max [of ALLOW ALLOW ALLOW ALLOW "[SUSPEND, ALLOW]" "[SUSPEND, ALLOW, ALLOW]"]
  by simp

subsection \<open>The single-key hook\<close>

text \<open>
  C5, as the code has it.  \<open>_KeyHook.process_event\<close> calls the callback exactly when the
  scan code of the event is one of the hook's; it then returns \<open>{event: result}\<close> when
  the result is \<open>ALLOW\<close> or \<open>SUPPRESS\<close> and \<open>{event: SUPPRESS}\<close> for every other result
  (\<open>SUSPEND\<close> and values that are no decision); for any other scan code it returns
  \<open>{event: ALLOW}\<close> without calling the callback.  The hook itself is unchanged.
\<close>

theorem KeyHook_process_event_result:
  "KeyHook_process_event scs cb e =
     (if scan_code e \<in> set scs
      then ([(e, if cb () = Decision ALLOW then ALLOW else SUPPRESS)], 1)
      else ([(e, ALLOW)], 0))
   \<and> process_event msc (KeyHook scs cb) e phys logical mods =
       Inr (KeyHook scs cb,
            [(e, if scan_code e \<in> set scs \<and> cb () \<noteq> Decision ALLOW then SUPPRESS else ALLOW)],
            if scan_code e \<in> set scs then 1 else 0)"
  by (cases "cb ()") (auto simp: KeyHook_process_event_def Let_def)

text \<open>
  C5 as stated fails: a callback that returns no decision (\<open>None\<close>, as the callback of
  \<open>test_suppressing_key_hook\<close> does) gives \<open>SUPPRESS\<close>, not \<open>ALLOW\<close>, and a callback that
  returns \<open>SUSPEND\<close> gives \<open>SUPPRESS\<close>, not \<open>SUSPEND\<close>.
\<close>

theorem KeyHook_invalid_result_counterexample:
  "KeyHook_process_event [0] returns_none (make_event KEY_DOWN 0 1)
     = ([(make_event KEY_DOWN 0 1, SUPPRESS)], 1)
   \<and> KeyHook_process_event [0] returns_none (make_event KEY_DOWN 0 1)
     \<noteq> ([(make_event KEY_DOWN 0 1, ALLOW)], 1)
   \<and> KeyHook_process_event [0] returns_suspend (make_event KEY_DOWN 0 1)
     \<noteq> ([(make_event KEY_DOWN 0 1, SUSPEND)], 1)"
  by (simp add: KeyHook_process_event_def make_event_def returns_none_def returns_suspend_def)

subsection \<open>The listener with hooks that only allow\<close>

lemma run_hooks_allow_only:
  assumes "allow_only_family msc I" and "set hs \<subseteq> I"
  shows "\<exists>hs' ds c. run_hooks msc hs e phys logical mods = Inr (hs', ds, c) \<and> set hs' \<subseteq> I \<and>
           (\<forall>d \<in> set ds. \<forall>k. dict_get d k ALLOW = ALLOW)"
  using assms(2)
proof (induction hs)
  case Nil
  show ?case by simp
next
  case (Cons h hs)
  from Cons.prems have "h \<in> I" by simp
  with assms(1) obtain h' d c where
    h: "process_event msc h e phys logical mods = Inr (h', d, c)" "h' \<in> I"
       "\<forall>k. dict_get d k ALLOW = ALLOW"
    unfolding allow_only_family_def by blast
  from Cons obtain hs' ds c' where
    hs: "run_hooks msc hs e phys logical mods = Inr (hs', ds, c')" "set hs' \<subseteq> I"
        "\<forall>d \<in> set ds. \<forall>k. dict_get d k ALLOW = ALLOW"
    by auto
  show ?case using h hs by simp
qed

lemma merge_all_allow:
  assumes "\<forall>d \<in> set ds. \<forall>k. dict_get d k ALLOW = ALLOW"
  shows "merge_decisions (or_empty_dict ds) e = Inr ALLOW"
  unfolding merge_decisions_or_empty using assms by simp

lemma process_sync_event_allow_only:
  assumes fam: "allow_only_family msc I"
    and sub: "set (suppressing_hooks l) \<subseteq> I"
    and nosus: "suspended_event_pairs l = []"
  shows "\<exists>l' n. process_sync_event msc echo l e = Inr (l', True, [], n) \<and>
           set (suppressing_hooks l') \<subseteq> I \<and> suspended_event_pairs l' = []"
proof (cases "is_replaying l")
  case True
  then show ?thesis using sub nosus
    by (simp add: process_sync_event_def allow_event_def)
next
  case False
  define l2 where "l2 = (update_pressed msc l e)\<lparr>async_events_queue := async_events_queue (update_pressed msc l e) @ [e]\<rparr>"
  have hooks2: "suppressing_hooks l2 = suppressing_hooks l"
    and sus2: "suspended_event_pairs l2 = []"
    using nosus by (simp_all add: l2_def update_pressed_def Let_def)
  from run_hooks_allow_only [OF fam, of "suppressing_hooks l2" e
      "physically_pressed_keys l2" "logically_pressed_keys l2" "active_modifiers l2"] sub hooks2
  obtain hs' ds c where
    rh: "run_hooks msc (suppressing_hooks l2) e (physically_pressed_keys l2)
           (logically_pressed_keys l2) (active_modifiers l2) = Inr (hs', ds, c)"
    and hs': "set hs' \<subseteq> I"
    and allow: "\<forall>d \<in> set ds. \<forall>k. dict_get d k ALLOW = ALLOW"
    by auto
  have rs: "run_sync_hooks msc echo l2 e =
              Inr (l2\<lparr>suppressing_hooks := hs', is_replaying := False\<rparr>, ALLOW, [], c)"
    unfolding run_sync_hooks_def
    by (simp add: rh sus2 merge_all_allow [OF allow] Let_def)
  have "process_sync_event msc echo l e =
          Inr (allow_event (l2\<lparr>suppressing_hooks := hs', is_replaying := False\<rparr>) e, True, [], c)"
    using False rs unfolding process_sync_event_def l2_def by (simp add: Let_def)
  then show ?thesis using hs' sus2 by (simp add: allow_event_def)
qed

text \<open>
  C1.  While every registered suppressing hook belongs to a family of hooks that decide
  \<open>ALLOW\<close> for every event, and no event is suspended at the start, the listener returns
  \<open>True\<close> for each event of any finite sequence, makes no call on the driver (nothing
  is replayed), suspends nothing, and what is seen downstream is the input sequence itself.
\<close>

theorem allow_only_hooks_pass_every_event:
  assumes "allow_only_family msc I"
    and "set (suppressing_hooks l) \<subseteq> I"
    and "suspended_event_pairs l = []"
  shows "\<exists>l'. feed msc echo l es = Inr (l', replicate (length es) True, map Passed es) \<and>
           suspended_event_pairs l' = []"
  using assms(2,3)
proof (induction es arbitrary: l)
  case Nil
  then show ?case by simp
next
  case (Cons e es)
  from process_sync_event_allow_only [OF assms(1) Cons.prems, of echo e]
  obtain l1 n where
    step: "process_sync_event msc echo l e = Inr (l1, True, [], n)"
    and inv: "set (suppressing_hooks l1) \<subseteq> I" "suspended_event_pairs l1 = []"
    by blast
  from Cons.IH [OF inv] obtain l2 where
    rest: "feed msc echo l1 es = Inr (l2, replicate (length es) True, map Passed es)"
    and sus: "suspended_event_pairs l2 = []"
    by blast
  show ?case using step rest sus by simp
qed

theorem allow_only_hooks_pass_every_event_witness:
  "allow_only_family {} {SimpleHook allow_all}
   \<and> set (suppressing_hooks allowing_listener) \<subseteq> {SimpleHook allow_all}
   \<and> suspended_event_pairs allowing_listener = []
   \<and> (\<exists>l'. feed {} True allowing_listener [make_event KEY_DOWN 0 1, make_event KEY_UP 0 2] =
             Inr (l', [True, True],
                  [Passed (make_event KEY_DOWN 0 1), Passed (make_event KEY_UP 0 2)])
           \<and> suspended_event_pairs l' = [])"
proof -
  have fam: "allow_only_family {} {SimpleHook allow_all}"
    by (simp add: allow_only_family_def SimpleHook_process_event_def allow_all_def)
  have sub: "set (suppressing_hooks allowing_listener) \<subseteq> {SimpleHook allow_all}"
    by (simp add: allowing_listener_def register_def KeyboardListener_init_def)
  have sus: "suspended_event_pairs allowing_listener = []"
    by (simp add: allowing_listener_def register_def KeyboardListener_init_def)
  show ?thesis
    using allow_only_hooks_pass_every_event [OF fam sub sus,
        of True "[make_event KEY_DOWN 0 1, make_event KEY_UP 0 2]"] fam sub sus
    by (simp del: feed.simps)
qed

subsection \<open>Suspended events\<close>

lemma replay_suspended_ok:
  assumes "hds \<noteq> []"
  shows "\<exists>pairs' tmp' calls'. replay_suspended hds xs (pairs, tmp, calls) = Inr (pairs', tmp', calls')"
proof (induction xs arbitrary: pairs tmp calls)
  case Nil
  show ?case by simp
next
  case (Cons x xs)
  obtain se sm where x: "x = (se, sm)" by (cases x)
  from assms obtain h hs where hds: "hds = h # hs" by (cases hds) auto
  obtain m where m: "merge_decisions hds se = Inr m"
    unfolding hds merge_decisions_def by simp
  show ?case
    unfolding x using m Cons.IH by (cases m) (simp_all add: Let_def)
qed

lemma fold_driver_echo_fields:
  "physically_pressed_keys (fold (driver_echo echo) cs l) = physically_pressed_keys l"
  "active_modifiers (fold (driver_echo echo) cs l) = active_modifiers l"
  "suspended_event_pairs (fold (driver_echo echo) cs l) = suspended_event_pairs l"
  "suppressing_hooks (fold (driver_echo echo) cs l) = suppressing_hooks l"
  "async_events_queue (fold (driver_echo echo) cs l) = async_events_queue l"
  by (induction cs arbitrary: l) (simp_all add: driver_echo_def split: driver_call.splits)

lemma run_sync_hooks_result:
  assumes rh: "run_hooks msc (suppressing_hooks l) e (physically_pressed_keys l)
                 (logically_pressed_keys l) (active_modifiers l) = Inr (hooks', ds, n)"
  shows "\<exists>pairs calls m lr.
           merge_decisions (or_empty_dict ds) e = Inr m \<and>
           run_sync_hooks msc echo l e =
             Inr (lr, if m = ALLOW then ALLOW else SUPPRESS, calls, n) \<and>
           suspended_event_pairs lr =
             (if m = SUSPEND then pairs @ [(e, active_modifiers l)] else pairs) \<and>
           active_modifiers lr = active_modifiers l \<and>
           suppressing_hooks lr = hooks' \<and> \<not> is_replaying lr"
proof -
  have ne: "or_empty_dict ds \<noteq> []" by (simp add: or_empty_dict_def)
  from replay_suspended_ok [OF ne]
  obtain pairs tmp calls where
    rp: "replay_suspended (or_empty_dict ds) (suspended_event_pairs l)
           (suspended_event_pairs l, active_modifiers l, []) = Inr (pairs, tmp, calls)"
    by blast
  obtain m where m: "merge_decisions (or_empty_dict ds) e = Inr m"
    unfolding merge_decisions_or_empty by blast
  define calls' where
    "calls' = calls @ map Press (sorted_list_of_set (active_modifiers l - tmp))
                    @ map Release (sorted_list_of_set (tmp - active_modifiers l))"
  define l2 where
    "l2 = (fold (driver_echo echo) calls' (l\<lparr>suppressing_hooks := hooks', is_replaying := True\<rparr>))
            \<lparr>suspended_event_pairs := pairs, is_replaying := False\<rparr>"
  define lr where
    "lr = (if m = SUSPEND
           then l2\<lparr>suspended_event_pairs := suspended_event_pairs l2 @ [(e, active_modifiers l2)]\<rparr>
           else l2)"
  have am: "active_modifiers l2 = active_modifiers l" and sh: "suppressing_hooks l2 = hooks'"
    and sp: "suspended_event_pairs l2 = pairs" and nr: "\<not> is_replaying l2"
    by (simp_all add: l2_def fold_driver_echo_fields)
  have "run_sync_hooks msc echo l e = Inr (lr, if m = ALLOW then ALLOW else SUPPRESS, calls', n)"
    unfolding run_sync_hooks_def
    using rh rp m by (cases m) (simp_all add: Let_def lr_def l2_def calls'_def)
  moreover have "suspended_event_pairs lr =
             (if m = SUSPEND then pairs @ [(e, active_modifiers l)] else pairs)"
    by (simp add: lr_def am sp)
  moreover have "active_modifiers lr = active_modifiers l" "suppressing_hooks lr = hooks'"
    "\<not> is_replaying lr"
    by (simp_all add: lr_def am sh nr)
  ultimately show ?thesis using m by blast
qed

text \<open>
  C3.  Outside a replay, let the suppressing hooks return the dicts \<open>ds\<close> for the event.
  When their merge for the event is \<open>SUSPEND\<close>, \<open>process_sync_event\<close> returns \<open>False\<close>
  (suppress) and the pair of the event and the set of active modifiers, as updated by the
  event, is the last element of \<open>suspended_event_pairs\<close>.  Whatever the merge is,
  \<open>run_sync_hooks\<close> returns \<open>ALLOW\<close> or \<open>SUPPRESS\<close>, never \<open>SUSPEND\<close>, and the driver is
  told \<open>True\<close> exactly for \<open>ALLOW\<close>.
\<close>

theorem suspend_is_stored_and_reported_as_suppress:
  assumes "\<not> is_replaying l"
    and "run_hooks msc (suppressing_hooks l) e
           (physically_pressed_keys (update_pressed msc l e))
           (logically_pressed_keys l)
           (active_modifiers (update_pressed msc l e)) = Inr (hooks', ds, n)"
  shows "(merge_decisions (or_empty_dict ds) e = Inr SUSPEND \<longrightarrow>
            (\<exists>l' pairs calls.
               process_sync_event msc echo l e = Inr (l', False, calls, n) \<and>
               suspended_event_pairs l' = pairs @ [(e, active_modifiers (update_pressed msc l e))] \<and>
               active_modifiers l' = active_modifiers (update_pressed msc l e)))
       \<and> (\<exists>l' d calls. run_sync_hooks msc echo
              ((update_pressed msc l e)\<lparr>async_events_queue :=
                  async_events_queue (update_pressed msc l e) @ [e]\<rparr>) e = Inr (l', d, calls, n)
            \<and> d \<noteq> SUSPEND
            \<and> process_sync_event msc echo l e =
                Inr (if d = ALLOW then allow_event l' e else l', d = ALLOW, calls, n))"
proof -
  define l2 where
    "l2 = (update_pressed msc l e)\<lparr>async_events_queue :=
             async_events_queue (update_pressed msc l e) @ [e]\<rparr>"
  have f: "suppressing_hooks l2 = suppressing_hooks l"
    "physically_pressed_keys l2 = physically_pressed_keys (update_pressed msc l e)"
    "logically_pressed_keys l2 = logically_pressed_keys l"
    "active_modifiers l2 = active_modifiers (update_pressed msc l e)"
    by (simp_all add: l2_def update_pressed_def Let_def)
  have rh: "run_hooks msc (suppressing_hooks l2) e (physically_pressed_keys l2)
              (logically_pressed_keys l2) (active_modifiers l2) = Inr (hooks', ds, n)"
    using assms(2) by (simp add: f)
  from run_sync_hooks_result [OF rh, of echo] obtain pairs calls m lr where
    m: "merge_decisions (or_empty_dict ds) e = Inr m"
    and rs: "run_sync_hooks msc echo l2 e =
               Inr (lr, if m = ALLOW then ALLOW else SUPPRESS, calls, n)"
    and sp: "suspended_event_pairs lr =
               (if m = SUSPEND then pairs @ [(e, active_modifiers l2)] else pairs)"
    and am: "active_modifiers lr = active_modifiers l2"
    by blast
  have ps: "process_sync_event msc echo l e =
          (case run_sync_hooks msc echo l2 e of
             Inl err \<Rightarrow> Inl err
           | Inr (l', decision, calls, n_calls) \<Rightarrow>
               (if decision = ALLOW then Inr (allow_event l' e, True, calls, n_calls)
                else Inr (l', False, calls, n_calls)))"
    using assms(1) by (simp add: process_sync_event_def l2_def Let_def)
  have first: "merge_decisions (or_empty_dict ds) e = Inr SUSPEND \<longrightarrow>
            (\<exists>l' pairs calls.
               process_sync_event msc echo l e = Inr (l', False, calls, n) \<and>
               suspended_event_pairs l' = pairs @ [(e, active_modifiers (update_pressed msc l e))] \<and>
               active_modifiers l' = active_modifiers (update_pressed msc l e))"
    using m rs ps sp am f by auto
  have second: "\<exists>l' d calls. run_sync_hooks msc echo l2 e = Inr (l', d, calls, n) \<and> d \<noteq> SUSPEND
            \<and> process_sync_event msc echo l e =
                Inr (if d = ALLOW then allow_event l' e else l', d = ALLOW, calls, n)"
    using rs ps by auto
  show ?thesis using first second unfolding l2_def by blast
qed

theorem suspend_is_stored_and_reported_as_suppress_witness:
  "\<not> is_replaying suspending_listener
   \<and> run_hooks {7} (suppressing_hooks suspending_listener) (make_event KEY_DOWN 7 1)
         (physically_pressed_keys (update_pressed {7} suspending_listener (make_event KEY_DOWN 7 1)))
         (logically_pressed_keys suspending_listener)
         (active_modifiers (update_pressed {7} suspending_listener (make_event KEY_DOWN 7 1)))
       = Inr ([SimpleHook suspend_all], [[(make_event KEY_DOWN 7 1, SUSPEND)]], 1)
   \<and> merge_decisions (or_empty_dict [[(make_event KEY_DOWN 7 1, SUSPEND)]]) (make_event KEY_DOWN 7 1)
       = Inr SUSPEND
   \<and> (\<exists>l' pairs calls.
         process_sync_event {7} True suspending_listener (make_event KEY_DOWN 7 1)
           = Inr (l', False, calls, 1)
         \<and> suspended_event_pairs l' = pairs @ [(make_event KEY_DOWN 7 1, {7})])"
proof -
  have nr: "\<not> is_replaying suspending_listener"
    by (simp add: suspending_listener_def register_def KeyboardListener_init_def)
  have am: "active_modifiers (update_pressed {7} suspending_listener (make_event KEY_DOWN 7 1)) = {7}"
    by (simp add: suspending_listener_def register_def KeyboardListener_init_def
        update_pressed_def make_event_def KEY_DOWN_def)
  have rh: "run_hooks {7} (suppressing_hooks suspending_listener) (make_event KEY_DOWN 7 1)
         (physically_pressed_keys (update_pressed {7} suspending_listener (make_event KEY_DOWN 7 1)))
         (logically_pressed_keys suspending_listener)
         (active_modifiers (update_pressed {7} suspending_listener (make_event KEY_DOWN 7 1)))
       = Inr ([SimpleHook suspend_all], [[(make_event KEY_DOWN 7 1, SUSPEND)]], 1)"
    by (simp add: suspending_listener_def register_def KeyboardListener_init_def
        SimpleHook_process_event_def suspend_all_def)
  have md: "merge_decisions (or_empty_dict [[(make_event KEY_DOWN 7 1, SUSPEND)]])
              (make_event KEY_DOWN 7 1) = Inr SUSPEND"
    by (simp add: merge_decisions_def or_empty_dict_def event_eq_def)
  show ?thesis
    using suspend_is_stored_and_reported_as_suppress [OF nr rh, of True] nr rh md am
    by (simp del: run_hooks.simps) blast
qed

subsection \<open>Events that arrive during a replay\<close>

text \<open>
  C4, as the code has it.  While \<open>is_replaying\<close> is set, \<open>process_sync_event\<close> returns
  \<open>True\<close>, calls no hook and makes no call on the driver; the pressed keys, the active
  modifiers, the suspended events, the queue and the hooks are unchanged.  The set
  \<open>logically_pressed_keys\<close> is updated as for every allowed event: a key-down adds the
  scan code, a key-up removes it.
\<close>

theorem replaying_event_is_allowed:
  assumes "is_replaying l"
  shows "process_sync_event msc echo l e =
           Inr (l\<lparr>logically_pressed_keys :=
                    (if event_type e = KEY_DOWN then insert (scan_code e) (logically_pressed_keys l)
                     else if event_type e = KEY_UP then logically_pressed_keys l - {scan_code e}
                     else logically_pressed_keys l)\<rparr>,
                True, [], 0)"
  using assms by (simp add: process_sync_event_def allow_event_def)

theorem replaying_event_is_allowed_witness:
  "is_replaying replaying_listener
   \<and> process_sync_event {} True replaying_listener (make_event KEY_DOWN 5 1) =
       Inr (replaying_listener\<lparr>logically_pressed_keys := {5}\<rparr>, True, [], 0)"
proof -
  have r: "is_replaying replaying_listener"
    by (simp add: replaying_listener_def KeyboardListener_init_def)
  show ?thesis
    using replaying_event_is_allowed [OF r, of "{}" True "make_event KEY_DOWN 5 1"] r
    by (simp add: make_event_def KEY_DOWN_def replaying_listener_def KeyboardListener_init_def)
qed

text \<open>
  C4 as stated fails: a key-down that arrives during a replay is added to
  \<open>logically_pressed_keys\<close>.
\<close>

theorem replaying_event_changes_logically_pressed_counterexample:
  "is_replaying replaying_listener
   \<and> process_sync_event {} True replaying_listener (make_event KEY_DOWN 5 1) =
       Inr (replaying_listener\<lparr>logically_pressed_keys := {5}\<rparr>, True, [], 0)
   \<and> logically_pressed_keys (replaying_listener\<lparr>logically_pressed_keys := {5}\<rparr>)
       \<noteq> logically_pressed_keys replaying_listener"
  by (simp add: process_sync_event_def allow_event_def replaying_listener_def
      KeyboardListener_init_def make_event_def KEY_DOWN_def)

text \<open>
  An injected event that the driver delivers back while \<open>is_replaying\<close> is set has the
  effect \<open>driver_echo\<close> gives it.
\<close>

lemma driver_echo_press:
  "is_replaying l \<Longrightarrow> event_type e = KEY_DOWN \<Longrightarrow>
     process_sync_event msc echo l e = Inr (driver_echo True (Press (scan_code e)) l, True, [], 0)"
  by (simp add: process_sync_event_def allow_event_def driver_echo_def)

lemma driver_echo_release:
  "is_replaying l \<Longrightarrow> event_type e = KEY_UP \<Longrightarrow>
     process_sync_event msc echo l e = Inr (driver_echo True (Release (scan_code e)) l, True, [], 0)"
  by (simp add: process_sync_event_def allow_event_def driver_echo_def KEY_UP_def KEY_DOWN_def)

subsection \<open>The wire record of an event\<close>








subsection \<open>The transition table\<close>

text \<open>Entries that are present keep their value while later rows are built.\<close>

lemma dd_get_preserves: "t k = Some v \<Longrightarrow> snd (dd_get t k') k = Some v"
  by (cases "t k'") (auto simp: dd_get_def)

lemma get_final_state_preserves:
  "t k = Some v \<Longrightarrow> snd (get_final_state t xs st) k = Some v"
proof (induction xs arbitrary: t st)
  case Nil
  then show ?case by simp
next
  case (Cons x xs)
  obtain s' t' where d: "dd_get t (st, x) = (s', t')" by (cases "dd_get t (st, x)")
  have "t' k = Some v" using dd_get_preserves [of t k v "(st, x)"] Cons.prems d by simp
  then show ?case using Cons.IH [of t' s'] d by simp
qed

lemma overlap_step_preserves:
  "snd acc k = Some v \<Longrightarrow> snd (overlap_step history p j acc) k = Some v"
proof -
  assume a: "snd acc k = Some v"
  obtain best t where acc: "acc = (best, t)" by (cases acc)
  obtain s t' where g: "get_final_state t (drop j history @ [p]) 0 = (s, t')"
    by (cases "get_final_state t (drop j history @ [p]) 0")
  have "t' k = Some v"
    using get_final_state_preserves [of t k v "drop j history @ [p]" 0] a acc g by simp
  then show ?thesis by (simp add: overlap_step_def acc g)
qed

lemma fold_overlap_step_preserves:
  "snd acc k = Some v \<Longrightarrow> snd (fold (overlap_step history p) js acc) k = Some v"
  by (induction js arbitrary: acc) (simp_all add: overlap_step_preserves)

lemma overlapping_state_preserves:
  "t k = Some v \<Longrightarrow> snd (overlapping_state t history p) k = Some v"
  unfolding overlapping_state_def
  by (rule fold_overlap_step_preserves) (rule get_final_state_preserves)

lemma failure_links_preserves:
  "t k = Some v \<Longrightarrow> fst k \<noteq> i \<Longrightarrow> failure_links t i history ps k = Some v"
proof (induction ps arbitrary: t)
  case Nil
  then show ?case by simp
next
  case (Cons p ps)
  obtain s t' where o: "overlapping_state t history p = (s, t')"
    by (cases "overlapping_state t history p")
  have "t' k = Some v" using overlapping_state_preserves [of t k v history p] Cons.prems(1) o by simp
  define t2 where "t2 = t'((i, p) \<mapsto> s)"
  have "t2 k = Some v" using \<open>t' k = Some v\<close> Cons.prems(2) by (auto simp: t2_def)
  then have "failure_links t2 i history ps k = Some v"
    using Cons.IH [of t2] Cons.prems(2) by blast
  moreover have "failure_links t i history (p # ps) = failure_links t2 i history ps"
    by (simp add: o t2_def)
  ultimately show ?case by simp
qed

lemma add_step_inputs_preserves:
  "t k = Some v \<Longrightarrow> fst k \<noteq> i \<Longrightarrow> add_step_inputs t i inputs k = Some v"
  unfolding add_step_inputs_def
proof (induction inputs arbitrary: t)
  case Nil
  then show ?case by simp
next
  case (Cons x xs)
  define t2 where "t2 = t((i, sort x) \<mapsto> i + 1)"
  have "t2 k = Some v" using Cons.prems by (cases k) (auto simp: t2_def)
  then have "fold (\<lambda>c t'. t'((i, sort c) \<mapsto> i + 1)) xs t2 k = Some v"
    using Cons.IH [of t2] Cons.prems(2) by blast
  then show ?case by (simp only: fold_simps t2_def)
qed

lemma add_step_inputs_row:
  "c \<in> set inputs \<Longrightarrow> add_step_inputs t i inputs (i, sort c) = Some (i + 1)"
  unfolding add_step_inputs_def
proof (induction inputs arbitrary: t)
  case Nil
  then show ?case by simp
next
  case (Cons x xs)
  show ?case
  proof (cases "c \<in> set xs")
    case True
    from Cons.IH [OF this] show ?thesis by simp
  next
    case False
    with Cons.prems have cx: "c = x" by simp
    have keep: "t (i, sort c) = Some (i + 1) \<Longrightarrow>
            fold (\<lambda>c t'. t'((i, sort c) \<mapsto> i + 1)) ys t (i, sort c) = Some (i + 1)" for ys t
      by (induction ys arbitrary: t) auto
    show ?thesis unfolding cx fold_simps by (rule keep [unfolded cx]) simp
  qed
qed

lemma build_steps_entries:
  assumes "build_steps t i history last_input sts = Inr t'"
  shows "(\<forall>k v. t k = Some v \<longrightarrow> fst k < i \<longrightarrow> t' k = Some v) \<and>
         (\<forall>j < length sts. \<forall>c \<in> set (step_inputs (sts ! j)).
            t' (i + int j, sort c) = Some (i + int j + 1))"
  using assms
proof (induction sts arbitrary: t i history last_input)
  case Nil
  then show ?case by simp
next
  case (Cons st sts)
  define t1 where "t1 = failure_links t i history (remdups history)"
  define t2 where "t2 = add_step_inputs t1 i (step_inputs st)"
  define li where "li = (if step_inputs st = [] then last_input else Some (last (step_inputs st)))"
  from Cons.prems obtain c0 where li: "li = Some c0"
    and rec: "build_steps t2 (i + 1) (history @ [c0]) li sts = Inr t'"
    by (auto simp: Let_def t1_def t2_def li_def split: option.splits if_splits)
  from Cons.IH [OF rec] have
    keep: "\<forall>k v. t2 k = Some v \<longrightarrow> fst k < i + 1 \<longrightarrow> t' k = Some v"
    and rows: "\<forall>j < length sts. \<forall>c \<in> set (step_inputs (sts ! j)).
                 t' (i + 1 + int j, sort c) = Some (i + 1 + int j + 1)"
    by blast+
  have old: "t' k = Some v" if "t k = Some v" "fst k < i" for k v
  proof -
    have "t1 k = Some v" unfolding t1_def using that by (intro failure_links_preserves) auto
    then have "t2 k = Some v" unfolding t2_def using that by (intro add_step_inputs_preserves) auto
    with keep that show ?thesis by (cases k) auto
  qed
  have row: "t' (i + int j, sort c) = Some (i + int j + 1)"
    if "j < length (st # sts)" "c \<in> set (step_inputs ((st # sts) ! j))" for j c
  proof (cases j)
    case 0
    then have "t2 (i, sort c) = Some (i + 1)"
      unfolding t2_def using that by (intro add_step_inputs_row) simp
    with keep show ?thesis using 0 by auto
  next
    case (Suc j')
    with that rows have "t' (i + 1 + int j', sort c) = Some (i + 1 + int j' + 1)" by auto
    then show ?thesis using Suc by (simp add: algebra_simps)
  qed
  show ?case using old row by blast
qed

lemma itertools_product_nonempty:
  "\<forall>xs \<in> set xss. xs \<noteq> [] \<Longrightarrow> itertools_product xss \<noteq> []"
proof (induction xss)
  case Nil
  show ?case by simp
next
  case (Cons xs xss)
  then obtain x xs' where "xs = x # xs'" by (cases xs) auto
  with Cons show ?case by simp
qed

lemma build_steps_total:
  assumes "\<forall>st \<in> set sts. \<forall>k \<in> set (keys st). scan_codes k \<noteq> []"
  shows "\<exists>t'. build_steps t i history last_input sts = Inr t'"
  using assms
proof (induction sts arbitrary: t i history last_input)
  case Nil
  show ?case by simp
next
  case (Cons st sts)
  have "step_inputs st \<noteq> []"
    unfolding step_inputs_def using Cons.prems by (intro itertools_product_nonempty) auto
  then show ?case using Cons by (simp add: Let_def)
qed

text \<open>
  C7.  The table is built for every hotkey whose keys all have a scan code (which \<open>Key\<close>
  asserts).  In the table that is built, for every step index \<open>i\<close> every tuple of the
  Cartesian product of the scan codes of the step's keys, sorted, is mapped from state \<open>i\<close>
  to state \<open>i + 1\<close>, and a pair that is not in the table reads as 0.
\<close>

theorem transition_table_maps_step_inputs_forward:
  "((\<forall>st \<in> set (steps hk). \<forall>k \<in> set (keys st). scan_codes k \<noteq> []) \<longrightarrow>
      (\<exists>t. build_hotkey_transition_table hk = Inr t))
   \<and> (\<forall>t. build_hotkey_transition_table hk = Inr t \<longrightarrow>
         (\<forall>i < length (steps hk).
            \<forall>c \<in> set (itertools_product (map scan_codes (keys (steps hk ! i)))).
              t (int i, sort c) = Some (int i + 1) \<and>
              fst (dd_get t (int i, sort c)) = int i + 1) \<and>
         (\<forall>k. t k = None \<longrightarrow> fst (dd_get t k) = 0))"
proof -
  have total: "\<exists>t. build_hotkey_transition_table hk = Inr t"
    if "\<forall>st \<in> set (steps hk). \<forall>k \<in> set (keys st). scan_codes k \<noteq> []"
    using build_steps_total [OF that] unfolding build_hotkey_transition_table_def by blast
  have rows: "t (int i, sort c) = Some (int i + 1) \<and> fst (dd_get t (int i, sort c)) = int i + 1"
    if t: "build_hotkey_transition_table hk = Inr t"
      and i: "i < length (steps hk)"
      and c: "c \<in> set (itertools_product (map scan_codes (keys (steps hk ! i))))"
    for t i c
  proof -
    from build_steps_entries [OF t [unfolded build_hotkey_transition_table_def]] i c
    have "t (int i, sort c) = Some (int i + 1)" by (simp add: step_inputs_def)
    then show ?thesis by (simp add: dd_get_def)
  qed
  have dflt: "\<forall>k. t k = None \<longrightarrow> fst (dd_get t k) = 0" for t :: transitions
    by (simp add: dd_get_def)
  show ?thesis using total rows dflt by blast
qed

text \<open>The first step of the example hotkey is what \<open>Step\<close> builds from its two keys.\<close>

lemma hotkey_ctrl_a_b_first_step:
  "Step {29, 157} [key_ctrl, key_a] = Inr (hd (steps hotkey_ctrl_a_b))"
  by (simp add: Step_def key_ctrl_def key_a_def hotkey_ctrl_a_b_def Hotkey_def)

theorem transition_table_maps_step_inputs_forward_witness:
  "map (\<lambda>st. map scan_codes (keys st)) (steps hotkey_ctrl_a_b) = [[[29, 157], [30]], [[48]]]
   \<and> (\<exists>t. build_hotkey_transition_table hotkey_ctrl_a_b = Inr t
          \<and> fst (dd_get t (0, [29, 30])) = 1
          \<and> fst (dd_get t (0, [30, 157])) = 1
          \<and> fst (dd_get t (1, [48])) = 2)"
proof -
  have h: "\<forall>st \<in> set (steps hotkey_ctrl_a_b). \<forall>k \<in> set (keys st). scan_codes k \<noteq> []"
    by (simp add: hotkey_ctrl_a_b_def Hotkey_def key_ctrl_def key_a_def key_b_def)
  have p0: "itertools_product (map scan_codes (keys (steps hotkey_ctrl_a_b ! 0))) = [[29, 30], [157, 30]]"
    by (simp add: hotkey_ctrl_a_b_def Hotkey_def key_ctrl_def key_a_def key_b_def)
  have p1: "itertools_product (map scan_codes (keys (steps hotkey_ctrl_a_b ! 1))) = [[48]]"
    by (simp add: hotkey_ctrl_a_b_def Hotkey_def key_ctrl_def key_a_def key_b_def)
  have len: "length (steps hotkey_ctrl_a_b) = 2"
    by (simp add: hotkey_ctrl_a_b_def Hotkey_def)
  have s: "sort [157, 30 :: int] = [30, 157]" "sort [29, 30 :: int] = [29, 30]" "sort [48 :: int] = [48]"
    by simp_all
  from transition_table_maps_step_inputs_forward [of hotkey_ctrl_a_b] h obtain t where
    t: "build_hotkey_transition_table hotkey_ctrl_a_b = Inr t"
    by blast
  with transition_table_maps_step_inputs_forward [of hotkey_ctrl_a_b]
  have rows: "\<forall>i < length (steps hotkey_ctrl_a_b).
              \<forall>c \<in> set (itertools_product (map scan_codes (keys (steps hotkey_ctrl_a_b ! i)))).
                fst (dd_get t (int i, sort c)) = int i + 1"
    by blast
  from rows [rule_format, of 0 "[29, 30]"] have a: "fst (dd_get t (0, [29, 30])) = 1"
    using p0 len s by simp
  from rows [rule_format, of 0 "[157, 30]"] have b: "fst (dd_get t (0, [30, 157])) = 1"
    using p0 len s by simp
  from rows [rule_format, of 1 "[48]"] have c: "fst (dd_get t (1, [48])) = 2"
    using p1 len s by simp
  have codes: "map (\<lambda>st. map scan_codes (keys st)) (steps hotkey_ctrl_a_b)
                 = [[[29, 157], [30]], [[48]]]"
    by (simp add: hotkey_ctrl_a_b_def Hotkey_def key_ctrl_def key_a_def key_b_def)
  show ?thesis using codes t a b c by blast
qed

subsection \<open>The example hooks\<close>

text \<open>The example hotkeys are what \<open>parse_hotkey\<close> gives, the example hooks what \<open>__init__\<close>
  and the first calls give.\<close>

lemma hotkey_0_1_parsed:
  "parse_hotkey cn (mp :: string \<Rightarrow> (int \<times> bool) list option) {} (AValue (PList [PList [PList [PInt 0]], PList [PList [PInt 1]]]))
     = Inr hotkey_0_1"
  by (simp add: raw_step_def Key_def Step_def hotkey_0_1_def Hotkey_def)

lemma hotkey_chord_parsed:
  "parse_hotkey cn (mp :: string \<Rightarrow> (int \<times> bool) list option) {} (AValue (PList [PInt 0, PInt 1]))
     = Inr hotkey_chord"
  by (simp add: named_step_def named_key_def key_to_scan_codes_def recursion_limit_def
      Key_def Step_def hotkey_chord_def Hotkey_def eval_nat_numeral)

lemma hook_0_1_init: "HotkeyHook_init hotkey_0_1 1 False returns_none = Inr hook_0_1"
  by (simp add: HotkeyHook_init_def build_hotkey_transition_table_def hotkey_0_1_def Hotkey_def
      step_inputs_def add_step_inputs_def overlapping_state_def dd_get_def hook_0_1_def
      table_0_1_def Let_def)

lemma hook_chord_init: "HotkeyHook_init hotkey_chord 1 False returns_none = Inr hook_chord"
  by (simp add: HotkeyHook_init_def build_hotkey_transition_table_def hotkey_chord_def Hotkey_def
      step_inputs_def add_step_inputs_def overlapping_state_def dd_get_def hook_chord_def
      table_chord_def Let_def)

lemmas ev_simps = make_event_def KEY_DOWN_def KEY_UP_def
lemmas he_simps = HotkeyHook_process_event_def py_index_def is_main_key_of_def key_up_branch_def
  timeout_branch_def timed_out_def match_branch_def completion_def completes_def decision_dict_def
  n_useful_presses_def py_slice_to_def dd_get_def event_eq_def Let_def

lemma hook_0_1_waiting_reached:
  "hook_trace {} hook_0_1
     [(make_event KEY_DOWN 0 0, {0}, {}, {}), (make_event KEY_UP 0 1, {}, {}, {})]
   = [hook_0_1\<lparr>state := 1, suspended_events := [make_event KEY_DOWN 0 0]\<rparr>, hook_0_1_waiting]"
  by (simp add: he_simps ev_simps hook_0_1_def hotkey_0_1_def Hotkey_def table_0_1_def
      hook_0_1_waiting_def)

lemma hook_chord_waiting_reached:
  "hook_trace {} hook_chord [(make_event KEY_DOWN 0 0, {0}, {}, {})] = [hook_chord_waiting]"
  by (simp add: he_simps ev_simps hook_chord_def hotkey_chord_def Hotkey_def table_chord_def
      hook_chord_waiting_def)

subsection \<open>The state of a hotkey hook\<close>

text \<open>The construction of the table stores values between 0 and the number of steps only.\<close>

lemma bounded_mono: "bounded t b \<Longrightarrow> b \<le> b' \<Longrightarrow> bounded t b'"
  unfolding bounded_def by force

lemma bounded_upd: "bounded t b \<Longrightarrow> 0 \<le> v \<Longrightarrow> v \<le> b \<Longrightarrow> bounded (t(k \<mapsto> v)) b"
  unfolding bounded_def by auto

lemma dd_get_bounded:
  assumes "bounded t b" "0 \<le> b"
  shows "0 \<le> fst (dd_get t k) \<and> fst (dd_get t k) \<le> b \<and> bounded (snd (dd_get t k)) b"
proof (cases "t k")
  case None
  then show ?thesis using assms bounded_upd [of t b 0 k] by (simp add: dd_get_def)
next
  case (Some v)
  with assms(1) have "0 \<le> v \<and> v \<le> b" unfolding bounded_def by blast
  then show ?thesis using Some assms by (simp add: dd_get_def)
qed

lemma get_final_state_bounded:
  assumes "bounded t b" "0 \<le> st" "st \<le> b"
  shows "0 \<le> fst (get_final_state t xs st) \<and> fst (get_final_state t xs st) \<le> b \<and>
         bounded (snd (get_final_state t xs st)) b"
  using assms
proof (induction xs arbitrary: t st)
  case Nil
  then show ?case by simp
next
  case (Cons x xs)
  obtain s' t' where d: "dd_get t (st, x) = (s', t')" by (cases "dd_get t (st, x)")
  have "0 \<le> b" using Cons.prems by simp
  from dd_get_bounded [OF Cons.prems(1) this, of "(st, x)"] d
  have "bounded t' b" "0 \<le> s'" "s' \<le> b" by simp_all
  from Cons.IH [OF this] show ?case using d by simp
qed

lemma overlap_step_bounded:
  assumes "0 \<le> fst acc" "fst acc \<le> b" "bounded (snd acc) b"
  shows "0 \<le> fst (overlap_step history p j acc) \<and> fst (overlap_step history p j acc) \<le> b \<and>
         bounded (snd (overlap_step history p j acc)) b"
proof -
  obtain best t where acc: "acc = (best, t)" by (cases acc)
  obtain s t' where g: "get_final_state t (drop j history @ [p]) 0 = (s, t')"
    by (cases "get_final_state t (drop j history @ [p]) 0")
  have "0 \<le> b" using assms by simp
  with get_final_state_bounded [of t b 0 "drop j history @ [p]"] assms acc g
  have "0 \<le> s" "s \<le> b" "bounded t' b" by simp_all
  then show ?thesis using assms acc g by (simp add: overlap_step_def)
qed

lemma fold_overlap_step_bounded:
  assumes "0 \<le> fst acc" "fst acc \<le> b" "bounded (snd acc) b"
  shows "0 \<le> fst (fold (overlap_step history p) js acc) \<and>
         fst (fold (overlap_step history p) js acc) \<le> b \<and>
         bounded (snd (fold (overlap_step history p) js acc)) b"
  using assms
proof (induction js arbitrary: acc)
  case Nil
  then show ?case by simp
next
  case (Cons j js)
  from overlap_step_bounded [OF Cons.prems, of history p j]
  have "0 \<le> fst (overlap_step history p j acc)" "fst (overlap_step history p j acc) \<le> b"
       "bounded (snd (overlap_step history p j acc)) b" by simp_all
  from Cons.IH [OF this] show ?case by simp
qed

lemma overlapping_state_bounded:
  assumes "bounded t b" "0 \<le> b"
  shows "0 \<le> fst (overlapping_state t history p) \<and> fst (overlapping_state t history p) \<le> b \<and>
         bounded (snd (overlapping_state t history p)) b"
  unfolding overlapping_state_def
  using get_final_state_bounded [OF assms(1) _ assms(2), of "drop 1 history @ [p]"]
  by (intro fold_overlap_step_bounded) simp_all

lemma failure_links_bounded:
  assumes "bounded t b" "0 \<le> b"
  shows "bounded (failure_links t i history ps) b"
  using assms(1)
proof (induction ps arbitrary: t)
  case Nil
  then show ?case by simp
next
  case (Cons p ps)
  obtain s t' where o: "overlapping_state t history p = (s, t')"
    by (cases "overlapping_state t history p")
  from overlapping_state_bounded [OF Cons.prems assms(2), of history p] o
  have "0 \<le> s" "s \<le> b" "bounded t' b" by simp_all
  define t2 where "t2 = t'((i, p) \<mapsto> s)"
  have "bounded t2 b" unfolding t2_def
    using \<open>0 \<le> s\<close> \<open>s \<le> b\<close> \<open>bounded t' b\<close> by (intro bounded_upd)
  from Cons.IH [OF this] have "bounded (failure_links t2 i history ps) b" .
  moreover have "failure_links t i history (p # ps) = failure_links t2 i history ps"
    by (simp add: o t2_def)
  ultimately show ?case by simp
qed

lemma add_step_inputs_bounded:
  assumes "bounded t b" "0 \<le> i + 1" "i + 1 \<le> b"
  shows "bounded (add_step_inputs t i inputs) b"
  unfolding add_step_inputs_def using assms(1)
proof (induction inputs arbitrary: t)
  case Nil
  then show ?case by simp
next
  case (Cons c cs)
  define t2 where "t2 = t((i, sort c) \<mapsto> i + 1)"
  have "bounded t2 b" unfolding t2_def using Cons.prems assms(2,3) by (intro bounded_upd)
  from Cons.IH [OF this] show ?case by (simp only: fold_simps t2_def)
qed

lemma build_steps_bounded:
  assumes "build_steps t i history last_input sts = Inr t'" "bounded t i" "0 \<le> i"
  shows "bounded t' (i + int (length sts))"
  using assms
proof (induction sts arbitrary: t i history last_input)
  case Nil
  then show ?case by simp
next
  case (Cons st sts)
  define t1 where "t1 = failure_links t i history (remdups history)"
  define t2 where "t2 = add_step_inputs t1 i (step_inputs st)"
  define li where "li = (if step_inputs st = [] then last_input else Some (last (step_inputs st)))"
  from Cons.prems(1) obtain c0 where
    rec: "build_steps t2 (i + 1) (history @ [c0]) li sts = Inr t'"
    by (auto simp: Let_def t1_def t2_def li_def split: option.splits if_splits)
  have "bounded t1 i" unfolding t1_def using Cons.prems by (intro failure_links_bounded)
  then have "bounded t1 (i + 1)" by (rule bounded_mono) simp
  then have "bounded t2 (i + 1)" unfolding t2_def using Cons.prems(3)
    by (intro add_step_inputs_bounded) simp_all
  from Cons.IH [OF rec this] Cons.prems(3) show ?case by (simp add: algebra_simps)
qed

lemma build_table_bounded:
  "build_hotkey_transition_table hk = Inr t \<Longrightarrow> bounded t (int (length (steps hk)))"
  unfolding build_hotkey_transition_table_def
  using build_steps_bounded [of Map.empty 0 "[]" None "steps hk" t]
  by (simp add: bounded_def)

lemma key_up_branch_inv: "hook_inv hk h \<Longrightarrow> hook_inv hk (fst (key_up_branch h e))"
  by (simp add: key_up_branch_def hook_inv_def)

lemma timeout_branch_inv: "hook_inv hk h \<Longrightarrow> hook_inv hk (timeout_branch h e)"
  by (simp add: timeout_branch_def hook_inv_def)

lemma match_branch_inv:
  assumes "hook_inv hk h"
  shows "hook_inv hk (match_branch h e st im phys mods)"
proof -
  let ?N = "int (length (steps hk))"
  have b: "bounded (transitions h) ?N" "0 \<le> ?N" using assms by (simp_all add: hook_inv_def)
  show ?thesis
    unfolding match_branch_def Let_def
    using assms dd_get_bounded [OF b]
    by (auto simp: hook_inv_def split: prod.splits) (metis fst_conv snd_conv)+
qed

lemma completion_inv:
  "hook_inv hk h \<Longrightarrow> hook_inv hk (fst (completion h e im logical ets))"
  by (auto simp: completion_def hook_inv_def split: prod.splits)

lemma process_event_inv:
  assumes "hook_inv hk h" "HotkeyHook_process_event msc h e phys logical mods = Inr (h', d, c)"
  shows "hook_inv hk h'"
proof -
  from assms(2) obtain st im h1 ets ets' where
    br: "(if event_type e = KEY_UP then key_up_branch h e
          else if scan_code e \<in> msc \<and> is_standard st then (h, [])
          else if state h < int (length (steps (hotkey h)))
          then (match_branch (timeout_branch h e) e st im phys mods, [])
          else (h, [])) = (h1, ets)"
    and comp: "completion h1 e im logical ets = (h', ets', c)"
    unfolding HotkeyHook_process_event_def Let_def
    by (auto split: sum.splits prod.splits)
  have "hook_inv hk h1"
  proof (cases "event_type e = KEY_UP")
    case True
    with br have "h1 = fst (key_up_branch h e)" by simp
    then show ?thesis using key_up_branch_inv [OF assms(1)] by simp
  next
    case False
    show ?thesis
    proof (cases "\<not> (scan_code e \<in> msc \<and> is_standard st) \<and> state h < int (length (steps (hotkey h)))")
      case True
      with False br have "h1 = match_branch (timeout_branch h e) e st im phys mods" by auto
      then show ?thesis using match_branch_inv [OF timeout_branch_inv [OF assms(1)]] by simp
    next
      case not_matching: False
      with False br have "h1 = h" by (auto split: if_splits)
      then show ?thesis using assms(1) by simp
    qed
  qed
  from completion_inv [OF this, of e im logical ets] comp show ?thesis by simp
qed

lemma hook_trace_inv:
  "hook_inv hk h \<Longrightarrow> \<forall>h' \<in> set (hook_trace msc h calls). hook_inv hk h'"
proof (induction calls arbitrary: h)
  case Nil
  show ?case by simp
next
  case (Cons call calls)
  obtain e phys logical mods where call: "call = (e, phys, logical, mods)" by (cases call)
  show ?case
  proof (cases "HotkeyHook_process_event msc h e phys logical mods")
    case (Inl err)
    then show ?thesis using Cons call by simp
  next
    case (Inr r)
    obtain h' d c where r: "r = (h', d, c)" by (cases r)
    have "hook_inv hk h'" using process_event_inv [OF Cons.prems] Inr r by simp
    with Cons.IH [OF this] show ?thesis using Inr r call by simp
  qed
qed

lemma init_inv: "HotkeyHook_init hk tmo tor cb = Inr h0 \<Longrightarrow> hook_inv hk h0"
  using build_table_bounded [of hk]
  by (auto simp: HotkeyHook_init_def hook_inv_def split: sum.splits)

text \<open>
  C10, as the code has it.  For a hook made by \<open>_HotkeyHook.__init__\<close> over a hotkey with
  \<open>N\<close> steps, and every finite sequence of calls of \<open>process_event\<close>, the state of the
  hook is an integer between 0 and \<open>N\<close> at the start and after each call; when the hotkey
  has at least one step, the lookup \<open>steps[min(state, N - 1)]\<close> at the start of each call
  is in bounds.
\<close>

theorem hotkey_hook_state_in_range:
  assumes "HotkeyHook_init hk tmo tor cb = Inr h0"
  shows "\<forall>h \<in> set (h0 # hook_trace msc h0 calls).
           hotkey h = hk \<and> 0 \<le> state h \<and> state h \<le> int (length (steps hk)) \<and>
           (steps hk \<noteq> [] \<longrightarrow>
              nat (min (state h) (int (length (steps hk)) - 1)) < length (steps hk) \<and>
              py_index (steps (hotkey h)) (min (state h) (int (length (steps (hotkey h))) - 1))
                = Inr (steps hk ! nat (min (state h) (int (length (steps hk)) - 1))))"
proof -
  have inv: "\<forall>h \<in> set (h0 # hook_trace msc h0 calls). hook_inv hk h"
    using init_inv [OF assms] hook_trace_inv [of hk h0 msc calls] by simp
  show ?thesis
  proof
    fix h assume "h \<in> set (h0 # hook_trace msc h0 calls)"
    with inv have i: "hook_inv hk h" by blast
    then show "hotkey h = hk \<and> 0 \<le> state h \<and> state h \<le> int (length (steps hk)) \<and>
           (steps hk \<noteq> [] \<longrightarrow>
              nat (min (state h) (int (length (steps hk)) - 1)) < length (steps hk) \<and>
              py_index (steps (hotkey h)) (min (state h) (int (length (steps (hotkey h))) - 1))
                = Inr (steps hk ! nat (min (state h) (int (length (steps hk)) - 1))))"
      by (cases "steps hk") (auto simp: hook_inv_def py_index_def min_def)
  qed
qed

text \<open>
  The states of the hook of \<open>ctrl+a, b\<close> while the hotkey is typed: the first step is
  matched by \<open>a\<close>, the second by \<open>b\<close>, after which the hook is back in state 0.
\<close>

lemma ctrl_a_b_states:
  "(case HotkeyHook_init hotkey_ctrl_a_b 1 False returns_none of
      Inl err \<Rightarrow> []
    | Inr h0 \<Rightarrow> map state (hook_trace {29, 157} h0 calls_ctrl_a_b)) = [0, 1, 1, 1, 0]"
  by code_simp

theorem hotkey_hook_state_in_range_witness:
  "\<exists>h0. HotkeyHook_init hotkey_ctrl_a_b 1 False returns_none = Inr h0
      \<and> steps hotkey_ctrl_a_b \<noteq> []
      \<and> map state (hook_trace {29, 157} h0 calls_ctrl_a_b) = [0, 1, 1, 1, 0]
      \<and> (\<forall>h \<in> set (h0 # hook_trace {29, 157} h0 calls_ctrl_a_b).
            0 \<le> state h \<and> state h \<le> 2 \<and>
            py_index (steps (hotkey h)) (min (state h) (int (length (steps (hotkey h))) - 1))
              = Inr (steps hotkey_ctrl_a_b ! nat (min (state h) 1)))"
proof -
  have keys: "\<forall>st \<in> set (steps hotkey_ctrl_a_b). \<forall>k \<in> set (keys st). scan_codes k \<noteq> []"
    by (simp add: hotkey_ctrl_a_b_def Hotkey_def key_ctrl_def key_a_def key_b_def)
  from build_steps_total [OF keys] obtain t where
    "build_hotkey_transition_table hotkey_ctrl_a_b = Inr t"
    unfolding build_hotkey_transition_table_def by blast
  then obtain h0 where init: "HotkeyHook_init hotkey_ctrl_a_b 1 False returns_none = Inr h0"
    by (simp add: HotkeyHook_init_def)
  have ne: "steps hotkey_ctrl_a_b \<noteq> []" and len: "length (steps hotkey_ctrl_a_b) = 2"
    by (simp_all add: hotkey_ctrl_a_b_def Hotkey_def)
  have states: "map state (hook_trace {29, 157} h0 calls_ctrl_a_b) = [0, 1, 1, 1, 0]"
    using ctrl_a_b_states init by simp
  have range: "\<forall>h \<in> set (h0 # hook_trace {29, 157} h0 calls_ctrl_a_b).
            0 \<le> state h \<and> state h \<le> 2 \<and>
            py_index (steps (hotkey h)) (min (state h) (int (length (steps (hotkey h))) - 1))
              = Inr (steps hotkey_ctrl_a_b ! nat (min (state h) 1))"
  proof
    fix h assume "h \<in> set (h0 # hook_trace {29, 157} h0 calls_ctrl_a_b)"
    with hotkey_hook_state_in_range [OF init, of "{29, 157}" calls_ctrl_a_b]
    have "hotkey h = hotkey_ctrl_a_b \<and> 0 \<le> state h \<and>
          state h \<le> int (length (steps hotkey_ctrl_a_b)) \<and>
          (steps hotkey_ctrl_a_b \<noteq> [] \<longrightarrow>
             nat (min (state h) (int (length (steps hotkey_ctrl_a_b)) - 1))
               < length (steps hotkey_ctrl_a_b) \<and>
             py_index (steps (hotkey h)) (min (state h) (int (length (steps (hotkey h))) - 1))
               = Inr (steps hotkey_ctrl_a_b !
                       nat (min (state h) (int (length (steps hotkey_ctrl_a_b)) - 1))))"
      by blast
    then show "0 \<le> state h \<and> state h \<le> 2 \<and>
            py_index (steps (hotkey h)) (min (state h) (int (length (steps (hotkey h))) - 1))
              = Inr (steps hotkey_ctrl_a_b ! nat (min (state h) 1))"
      using ne by (auto simp: len)
  qed
  show ?thesis using init ne states range by (intro exI [of _ h0] conjI) assumption+
qed

text \<open>
  C10 as stated fails for a \<open>Hotkey\<close> object without steps, which \<open>parse_hotkey\<close> and
  \<open>add_hotkey\<close> accept as it is: \<open>N = 0\<close>, the lookup is \<open>steps[-1]\<close> on the empty tuple,
  and every call of \<open>process_event\<close> raises \<open>IndexError\<close>.
\<close>

theorem hotkey_without_steps_lookup_counterexample:
  "HotkeyHook_init (Hotkey []) 1 False returns_none = Inr no_steps_hook
   \<and> py_index (steps (hotkey no_steps_hook))
        (min (state no_steps_hook) (int (length (steps (hotkey no_steps_hook))) - 1))
       = Inl IndexError
   \<and> HotkeyHook_process_event {} no_steps_hook (make_event KEY_DOWN 0 1) {0} {} {}
       = Inl IndexError"
  by (simp add: HotkeyHook_init_def build_hotkey_transition_table_def Hotkey_def no_steps_hook_def
      py_index_def HotkeyHook_process_event_def)

subsection \<open>The time-out of a hotkey hook\<close>






subsection \<open>Unknown keys in a hotkey\<close>

lemma map_err_fails:
  "x \<in> set xs \<Longrightarrow> f x = Inl err \<Longrightarrow> \<exists>err'. map_err f xs = Inl err'"
proof (induction xs)
  case Nil
  then show ?case by simp
next
  case (Cons y ys)
  show ?case
  proof (cases "f y")
    case (Inl e)
    then show ?thesis by simp
  next
    case (Inr v)
    with Cons have "x \<in> set ys" by auto
    from Cons.IH [OF this Cons.prems(2)] show ?thesis using Inr by auto
  qed
qed

lemma no_scan_code_Inr: "no_scan_code (Inr xs) \<longleftrightarrow> xs = []"
  by (cases xs) simp_all

lemma key_to_scan_codes_strict:
  "key_to_scan_codes_depth d cn mp (PStr nm) True =
     (case normalize_name cn nm of
        Inl err \<Rightarrow> key_to_scan_codes_depth d cn mp (PStr nm) False
      | Inr n \<Rightarrow>
          if n \<notin> set sided_modifiers \<and> d \<noteq> 0 \<and> (mp n = None \<or> (\<exists>ps. mp n = Some ps \<and> map fst ps = []))
          then Inl ValueError
          else key_to_scan_codes_depth d cn mp (PStr nm) False)"
proof (cases d)
  case 0
  then show ?thesis by (simp split: sum.splits)
next
  case (Suc d')
  show ?thesis
    unfolding Suc
    by (auto simp: lookup_scan_codes_def ordered_dedup_def split: sum.splits option.splits)
qed

lemma strict_no_scan_code:
  assumes "no_scan_code (key_to_scan_codes cn mp (PStr nm) False)"
  shows "no_scan_code (key_to_scan_codes cn mp (PStr nm) True)"
  using assms unfolding key_to_scan_codes_def key_to_scan_codes_strict [of recursion_limit]
  by (auto split: sum.splits)

lemma named_key_fails:
  assumes "no_scan_code (key_to_scan_codes cn mp (PStr nm) False)"
  shows "\<exists>err. named_key cn mp (PStr nm) = Inl err"
proof -
  from strict_no_scan_code [OF assms]
  have "no_scan_code (key_to_scan_codes cn mp (PStr nm) True)" .
  then show ?thesis
    by (cases "key_to_scan_codes cn mp (PStr nm) True" rule: no_scan_code.cases)
       (simp_all add: named_key_def Key_def)
qed

lemma named_step_fails:
  assumes "nm \<in> set names" "no_scan_code (key_to_scan_codes cn mp (PStr nm) False)"
  shows "\<exists>err. named_step cn mp msc (map PStr names) = Inl err"
proof -
  from named_key_fails [OF assms(2)] obtain err where "named_key cn mp (PStr nm) = Inl err" ..
  with map_err_fails [of "PStr nm" "map PStr names" "named_key cn mp" err] assms(1)
  obtain err' where "map_err (named_key cn mp) (map PStr names) = Inl err'" by auto
  then show ?thesis by (simp add: named_step_def)
qed

lemma parse_hotkey_fails:
  assumes "nm \<in> set (hotkey_key_names s)"
    and "no_scan_code (key_to_scan_codes cn mp (PStr nm) False)"
  shows "\<exists>err. parse_hotkey cn mp msc (AValue (PStr s)) = Inl err"
proof (cases "length s = 1")
  case True
  with assms(1) have "nm = s" by (simp add: hotkey_key_names_def)
  with named_step_fails [of nm "[s]" cn mp msc] assms(2)
  obtain err where "named_step cn mp msc [PStr s] = Inl err" by auto
  with True show ?thesis by simp
next
  case False
  with assms(1) obtain step_text where
    st: "step_text \<in> set (split_comma s)" and nm: "nm \<in> set (split_plus step_text)"
    by (auto simp: hotkey_key_names_def)
  from named_step_fails [OF nm assms(2)] obtain err where
    "named_step cn mp msc (map PStr (split_plus step_text)) = Inl err" ..
  with map_err_fails [of step_text "split_comma s"
      "\<lambda>step_text. named_step cn mp msc (map PStr (split_plus step_text))" err] st
  obtain err' where
    "map_err (\<lambda>step_text. named_step cn mp msc (map PStr (split_plus step_text))) (split_comma s)
       = Inl err'"
    by auto
  with False show ?thesis by simp
qed

text \<open>
  C8, as the code has it.  When a hotkey is given as a string and the lookup of one of
  its key names raises or finds no scan code, \<open>parse_hotkey\<close> raises, and so does
  \<open>add_hotkey\<close>, before a hook is made or registered.  For a name that is not a sided
  modifier the exception is the \<open>ValueError\<close> of \<open>key_to_scan_codes\<close>.  A scan code
  given as a number is returned as it is, without any lookup.
\<close>

theorem unknown_key_name_fails_before_registration:
  assumes "nm \<in> set (hotkey_key_names s)"
    and "no_scan_code (key_to_scan_codes cn mp (PStr nm) False)"
  shows "(\<exists>err. parse_hotkey cn mp msc (AValue (PStr s)) = Inl err \<and>
                add_hotkey cn mp msc l (AValue (PStr s)) cb suppress tmo tor = Inl err)
       \<and> (\<forall>n. normalize_name cn nm = Inr n \<and> n \<notin> set sided_modifiers \<longrightarrow>
                key_to_scan_codes cn mp (PStr nm) True = Inl ValueError)
       \<and> key_to_scan_codes cn mp (PInt i) True = Inr [i]"
proof -
  from parse_hotkey_fails [OF assms] obtain err where
    p: "parse_hotkey cn mp msc (AValue (PStr s)) = Inl err" ..
  then have a: "add_hotkey cn mp msc l (AValue (PStr s)) cb suppress tmo tor = Inl err"
    by (simp add: add_hotkey_def)
  have v: "key_to_scan_codes cn mp (PStr nm) True = Inl ValueError"
    if "normalize_name cn nm = Inr n" "n \<notin> set sided_modifiers" for n
    using assms(2) that
    by (auto simp: key_to_scan_codes_def recursion_limit_def eval_nat_numeral
        lookup_scan_codes_def no_scan_code_Inr Let_def split: option.splits if_splits)
  have i: "key_to_scan_codes cn mp (PInt i) True = Inr [i]"
    by (simp add: key_to_scan_codes_def recursion_limit_def eval_nat_numeral)
  show ?thesis using p a v i by blast
qed

text \<open>With a driver that knows \<open>a\<close> and \<open>ctrl\<close> only, \<open>ctrl+a, foo\<close> is refused.\<close>

lemma hotkey_key_names_example: "hotkey_key_names ''ctrl+a, foo'' = [''ctrl'', ''a'', ''foo'']"
  by code_simp

lemma foo_has_no_scan_code: "key_to_scan_codes canonical_names small_map (PStr ''foo'') False = Inr []"
  by code_simp

lemma ctrl_has_both_sides: "key_to_scan_codes canonical_names small_map (PStr ''ctrl'') True = Inr [29, 157]"
  by code_simp

lemma parse_hotkey_unknown_name: "parse_hotkey canonical_names small_map {29, 157} (AValue (PStr ''ctrl+a, foo'')) = Inl ValueError"
  by code_simp

lemma parse_hotkey_known_names: "parse_hotkey canonical_names small_map {29, 157} (AValue (PStr ''ctrl+a, a'')) =
   Inr (Hotkey [\<lparr> keys = [key_ctrl, key_a], step_modifiers = [key_ctrl], is_standard = True,
               main_key = Some key_a \<rparr>,
             \<lparr> keys = [key_a], step_modifiers = [], is_standard = True,
               main_key = Some key_a \<rparr>])"
  by code_simp

theorem unknown_key_name_fails_before_registration_witness:
  "''foo'' \<in> set (hotkey_key_names ''ctrl+a, foo'')
   \<and> no_scan_code (key_to_scan_codes canonical_names small_map (PStr ''foo'') False)
   \<and> parse_hotkey canonical_names small_map {29, 157} (AValue (PStr ''ctrl+a, foo'')) = Inl ValueError
   \<and> add_hotkey canonical_names small_map {29, 157} KeyboardListener_init
         (AValue (PStr ''ctrl+a, foo'')) returns_none True 1 False = Inl ValueError"
proof -
  have m: "''foo'' \<in> set (hotkey_key_names ''ctrl+a, foo'')" by (simp add: hotkey_key_names_example)
  have u: "no_scan_code (key_to_scan_codes canonical_names small_map (PStr ''foo'') False)"
    by (simp add: foo_has_no_scan_code)
  from unknown_key_name_fails_before_registration [OF m u, of "{29, 157}" KeyboardListener_init
      returns_none True 1 False]
  show ?thesis using m u parse_hotkey_unknown_name by auto
qed

text \<open>
  C8 as stated fails for scan codes: with a driver that knows no key at all,
  \<open>add_hotkey(99999, callback)\<close> registers a hook for the scan code 99999.
\<close>

theorem unmapped_scan_code_is_registered_counterexample:
  "key_to_scan_codes canonical_names nomap (PInt 99999) True = Inr [99999]
   \<and> parse_hotkey canonical_names nomap {} (AValue (PInt 99999)) = Inr hotkey_99999
   \<and> add_hotkey canonical_names nomap {} KeyboardListener_init (AValue (PInt 99999))
        returns_none True 1 False
      = Inr (KeyboardListener_init\<lparr>suppressing_hooks := [HotkeyHook hook_99999]\<rparr>)"
  by (simp add: key_to_scan_codes_def recursion_limit_def eval_nat_numeral named_step_def
      named_key_def Key_def Step_def hotkey_99999_def Hotkey_def add_hotkey_def HotkeyHook_init_def
      build_hotkey_transition_table_def step_inputs_def add_step_inputs_def hook_99999_def
      register_def KeyboardListener_init_def)

end
